theory Spec2Isabelle
  imports Main "HOL-Library.Word" "HOL-Library.Sublist"
begin

section \<open>The R/W semaphore test harness \<^verbatim>\<open>rwsem-any.c\<close>\<close>

text \<open>
  The module starts up to 20 reader, writer and downgrader kernel threads that hammer one
  \<^verbatim>\<open>rw_semaphore\<close>, stops them with a timer, joins them and prints the counters.
  The threads run in parallel, so the program is modelled as an interleaving of atomic
  steps: every statement of \<^verbatim>\<open>dr\<close>, \<^verbatim>\<open>ur\<close>, \<^verbatim>\<open>dw\<close>, \<^verbatim>\<open>uw\<close>, \<^verbatim>\<open>dgw\<close> and
  \<^verbatim>\<open>sched\<close> is one step of the thread that executes it, the loop test
  \<^verbatim>\<open>atomic_read(&do_stuff)\<close> is one step, the module's init function and the timer are
  actors of their own. A blocked call (\<^verbatim>\<open>down_read\<close>, \<^verbatim>\<open>down_write\<close>,
  \<^verbatim>\<open>wait_for_completion\<close>) is a step that is not enabled.
\<close>

subsection \<open>Module parameters\<close>

text \<open>\<^verbatim>\<open>static int numrd = 1, numwr = 1, numdg = 1, elapse = 5; static int do_sched = 0;\<close>
  Every parameter is a C \<^verbatim>\<open>int\<close> that \<^verbatim>\<open>insmod\<close> may set to any value.\<close>

record config =
  numrd :: "32 word"
  numwr :: "32 word"
  numdg :: "32 word"
  elapse :: "32 word"
  do_sched :: "32 word"

definition default_config :: config where
  "default_config = \<lparr>numrd = 1, numwr = 1, numdg = 1, elapse = 5, do_sched = 0\<rparr>"

text \<open>The loop counter of the init function is an \<^verbatim>\<open>unsigned long\<close>; in
  \<^verbatim>\<open>loop < numrd\<close> the \<^verbatim>\<open>int\<close> is converted to \<^verbatim>\<open>unsigned long\<close> (sign extension,
  then read as unsigned; 64 bits here), so a negative count compares as a huge one.\<close>

definition as_ulong :: "32 word \<Rightarrow> nat" where
  "as_ulong w = unat (scast w :: 64 word)"

text \<open>\<^verbatim>\<open>ENOANO\<close> comes from the kernel's errno header, which is not part of the source
  file; 55 is its value in \<^verbatim>\<open>asm-generic/errno.h\<close>.\<close>

definition ENOANO :: int where
  "ENOANO = 55"

subsection \<open>Threads and their code\<close>

datatype kind = Reader | Writer | Downgrader

text \<open>The atomic counters of the file (\<^verbatim>\<open>static atomic_t readers = ATOMIC_INIT(0)\<close> ...).\<close>

datatype var = Readers | Writers | Do_stuff | Reads_taken | Writes_taken | Downgrades_taken

text \<open>The functions that contain a \<^verbatim>\<open>CHECKA\<close>; the macro prints \<^verbatim>\<open>__func__\<close>.\<close>

datatype func = Dr | Ur | Dw | Uw | Dgw

text \<open>One atomic statement of a thread's loop body.\<close>

datatype instr =
    Down_read
  | Up_read
  | Down_write
  | Up_write
  | Downgrade_write
  | Atomic_inc var
  | Atomic_dec var
  | Checka func var "32 word"
  | Sched_call

text \<open>The five wrappers and \<^verbatim>\<open>sched\<close>, statement by statement.\<close>

definition dr :: "instr list" where
  "dr = [Down_read, Atomic_inc Readers, Atomic_inc Reads_taken, Checka Dr Writers 0]"

definition ur :: "instr list" where
  "ur = [Checka Ur Writers 0, Atomic_dec Readers, Up_read]"

definition dw :: "instr list" where
  "dw = [Down_write, Atomic_inc Writers, Atomic_inc Writes_taken,
         Checka Dw Writers 1, Checka Dw Readers 0]"

definition uw :: "instr list" where
  "uw = [Checka Uw Writers 1, Checka Uw Readers 0, Atomic_dec Writers, Up_write]"

definition dgw :: "instr list" where
  "dgw = [Checka Dgw Writers 1, Checka Dgw Readers 0, Atomic_dec Writers, Atomic_inc Readers,
          Downgrade_write, Atomic_inc Downgrades_taken]"

definition sched :: "instr list" where
  "sched = [Sched_call]"

text \<open>The loop bodies of \<^verbatim>\<open>reader\<close>, \<^verbatim>\<open>writer\<close> and \<^verbatim>\<open>downgrader\<close>.\<close>

fun body :: "kind \<Rightarrow> instr list" where
  "body Reader = dr @ ur @ sched"
| "body Writer = dw @ uw @ sched"
| "body Downgrader = dw @ dgw @ ur @ sched"

text \<open>Where a thread stands: at the loop test, before statement \<open>k\<close> of the body, before
  the \<^verbatim>\<open>printk("%s: done\n")\<close>, before \<^verbatim>\<open>complete_and_exit\<close>, or gone.\<close>

datatype tpc = Head | Body nat | Print_done | Complete | Exited

text \<open>A kernel thread: the function it runs, its argument \<^verbatim>\<open>N\<close> and its position.
  \<^verbatim>\<open>daemonize("Read%u", N)\<close> names the thread after both, so the name printed at the
  end is given by \<open>kind\<close> and \<open>arg\<close>.\<close>

record thread =
  kind :: kind
  arg :: nat
  pc :: tpc

subsection \<open>The shared state\<close>

text \<open>What \<^verbatim>\<open>printk\<close> writes, by format string, with the format's arguments.\<close>

datatype msg =
    Starting_tests
  | Check_failed var "32 word" "32 word" func
  | Thread_done kind nat
  | Rwsem_counter int
  | Reads_taken_msg "32 word"
  | Writes_taken_msg "32 word"
  | Downgrades_taken_msg "32 word"

text \<open>The position of \<^verbatim>\<open>rwsem_init_module\<close>. \<open>M_fault\<close> stands for the access
  beyond the end of a completion array, \<open>M_returned r\<close> for the return of \<open>r\<close>.\<close>

datatype main_pc =
    M_start
  | M_init_rwsem
  | M_set_do_stuff
  | M_spawn nat
  | M_add_timer
  | M_wait_rd nat
  | M_wait_wr nat
  | M_wait_dg nat
  | M_clear_do_stuff
  | M_del_timer
  | M_print_counter
  | M_print_reads
  | M_print_writes
  | M_print_downgrades
  | M_return
  | M_returned int
  | M_fault

text \<open>
  \<open>activity\<close> is the semaphore \<^verbatim>\<open>rwsem_sem\<close> (the value the module prints at the end):
  0 when free, \<open>n > 0\<close> for \<open>n\<close> readers, \<open>-1\<close> for a writer. \<open>rd_comp\<close>, \<open>wr_comp\<close> and
  \<open>dg_comp\<close> are the arrays of 20 completions, each element the completion's \<^verbatim>\<open>done\<close>
  count. \<open>yields\<close> counts the calls of \<^verbatim>\<open>schedule()\<close>; the program has no such
  variable, it makes the yield visible.
\<close>

record state =
  activity :: int
  readers :: "32 word"
  writers :: "32 word"
  do_stuff :: "32 word"
  reads_taken :: "32 word"
  writes_taken :: "32 word"
  downgrades_taken :: "32 word"
  rd_comp :: "nat list"
  wr_comp :: "nat list"
  dg_comp :: "nat list"
  timer_pending :: bool
  threads :: "thread list"
  mpc :: main_pc
  klog :: "msg list"
  yields :: nat

text \<open>The state when the module is loaded: statics are zero, nothing runs.\<close>

definition init_state :: state where
  "init_state = \<lparr>activity = 0, readers = 0, writers = 0, do_stuff = 0, reads_taken = 0,
     writes_taken = 0, downgrades_taken = 0,
     rd_comp = replicate 20 0, wr_comp = replicate 20 0, dg_comp = replicate 20 0,
     timer_pending = False, threads = [], mpc = M_start, klog = [], yields = 0\<rparr>"

subsection \<open>Atomic operations, printk, CHECKA\<close>

fun atomic_read :: "var \<Rightarrow> state \<Rightarrow> 32 word" where
  "atomic_read Readers s = readers s"
| "atomic_read Writers s = writers s"
| "atomic_read Do_stuff s = do_stuff s"
| "atomic_read Reads_taken s = reads_taken s"
| "atomic_read Writes_taken s = writes_taken s"
| "atomic_read Downgrades_taken s = downgrades_taken s"

fun atomic_set :: "var \<Rightarrow> 32 word \<Rightarrow> state \<Rightarrow> state" where
  "atomic_set Readers w s = s\<lparr>readers := w\<rparr>"
| "atomic_set Writers w s = s\<lparr>writers := w\<rparr>"
| "atomic_set Do_stuff w s = s\<lparr>do_stuff := w\<rparr>"
| "atomic_set Reads_taken w s = s\<lparr>reads_taken := w\<rparr>"
| "atomic_set Writes_taken w s = s\<lparr>writes_taken := w\<rparr>"
| "atomic_set Downgrades_taken w s = s\<lparr>downgrades_taken := w\<rparr>"

text \<open>\<^verbatim>\<open>atomic_inc\<close> and \<^verbatim>\<open>atomic_dec\<close> wrap around at 32 bits.\<close>

definition atomic_inc :: "var \<Rightarrow> state \<Rightarrow> state" where
  "atomic_inc v s = atomic_set v (atomic_read v s + 1) s"

definition atomic_dec :: "var \<Rightarrow> state \<Rightarrow> state" where
  "atomic_dec v s = atomic_set v (atomic_read v s - 1) s"

definition printk :: "msg \<Rightarrow> state \<Rightarrow> state" where
  "printk m s = s\<lparr>klog := klog s @ [m]\<rparr>"

text \<open>
  \<^verbatim>\<open>#define CHECKA(var, val) do { int x = atomic_read(&(var)); if (x != (val))
  printk("check [%s != %d, == %d] failed in %s\n", #var, (val), x, __func__); } while (0)\<close>
  The macro prints and goes on; it does not stop the thread.
\<close>

definition checka :: "func \<Rightarrow> var \<Rightarrow> 32 word \<Rightarrow> state \<Rightarrow> state" where
  "checka f v val s =
     (let x = atomic_read v s in
      if x \<noteq> val then printk (Check_failed v val x f) s else s)"

subsection \<open>The semaphore\<close>

text \<open>
  Modelled from the spec: the kernel's \<^verbatim>\<open>rw_semaphore\<close> (\<^verbatim>\<open>init_rwsem\<close>,
  \<^verbatim>\<open>down_read\<close>, \<^verbatim>\<open>up_read\<close>, \<^verbatim>\<open>down_write\<close>, \<^verbatim>\<open>up_write\<close>,
  \<^verbatim>\<open>downgrade_write\<close>) is not part of the source file. The spec gives it as an
  occupancy count: acquire-read blocks until no writer holds and then adds a reader,
  release-read removes one, acquire-write blocks until the lock is free and then sets the
  writer value \<open>-1\<close>, release-write sets it free, and downgrade turns the writer into one
  reader in a single move. The spec leaves the order in which waiters are woken open, so a
  blocked thread may go on as soon as its condition holds. \<open>None\<close> means the caller blocks.
\<close>

definition init_rwsem :: "state \<Rightarrow> state" where
  "init_rwsem s = s\<lparr>activity := 0\<rparr>"

definition down_read :: "state \<Rightarrow> state option" where
  "down_read s = (if 0 \<le> activity s then Some (s\<lparr>activity := activity s + 1\<rparr>) else None)"

definition up_read :: "state \<Rightarrow> state" where
  "up_read s = s\<lparr>activity := activity s - 1\<rparr>"

definition down_write :: "state \<Rightarrow> state option" where
  "down_write s = (if activity s = 0 then Some (s\<lparr>activity := - 1\<rparr>) else None)"

definition up_write :: "state \<Rightarrow> state" where
  "up_write s = s\<lparr>activity := 0\<rparr>"

definition downgrade_write :: "state \<Rightarrow> state" where
  "downgrade_write s = s\<lparr>activity := 1\<rparr>"

subsection \<open>sched\<close>

text \<open>
  Modelled from the spec: \<^verbatim>\<open>schedule()\<close> is the kernel's; the calling thread gives up
  the processor and nothing of the program's state changes. The model counts the call.
\<close>

definition schedule :: "state \<Rightarrow> state" where
  "schedule s = s\<lparr>yields := Suc (yields s)\<rparr>"

text \<open>\<^verbatim>\<open>SCHED\<close> is defined at the top of the file, so the body of \<^verbatim>\<open>sched\<close> is
  \<^verbatim>\<open>if (do_sched) schedule();\<close>\<close>

definition sched_call :: "config \<Rightarrow> state \<Rightarrow> state" where
  "sched_call c s = (if do_sched c \<noteq> 0 then schedule s else s)"

subsection \<open>One statement of a thread\<close>

fun exec_instr :: "config \<Rightarrow> instr \<Rightarrow> state \<Rightarrow> state option" where
  "exec_instr c Down_read s = down_read s"
| "exec_instr c Up_read s = Some (up_read s)"
| "exec_instr c Down_write s = down_write s"
| "exec_instr c Up_write s = Some (up_write s)"
| "exec_instr c Downgrade_write s = Some (downgrade_write s)"
| "exec_instr c (Atomic_inc v) s = Some (atomic_inc v s)"
| "exec_instr c (Atomic_dec v) s = Some (atomic_dec v s)"
| "exec_instr c (Checka f v val) s = Some (checka f v val s)"
| "exec_instr c Sched_call s = Some (sched_call c s)"

subsection \<open>Completions\<close>

fun comp_of :: "kind \<Rightarrow> state \<Rightarrow> nat list" where
  "comp_of Reader s = rd_comp s"
| "comp_of Writer s = wr_comp s"
| "comp_of Downgrader s = dg_comp s"

fun comp_set :: "kind \<Rightarrow> nat list \<Rightarrow> state \<Rightarrow> state" where
  "comp_set Reader xs s = s\<lparr>rd_comp := xs\<rparr>"
| "comp_set Writer xs s = s\<lparr>wr_comp := xs\<rparr>"
| "comp_set Downgrader xs s = s\<lparr>dg_comp := xs\<rparr>"

definition init_completion :: "kind \<Rightarrow> nat \<Rightarrow> state \<Rightarrow> state" where
  "init_completion k n s = comp_set k ((comp_of k s)[n := 0]) s"

text \<open>\<^verbatim>\<open>complete\<close> adds one to the \<^verbatim>\<open>done\<close> count. A thread's \<^verbatim>\<open>N\<close> is below 20,
  since the loop that starts the threads stops at 20; the guard keeps the function total.\<close>

definition complete :: "kind \<Rightarrow> nat \<Rightarrow> state \<Rightarrow> state" where
  "complete k n s =
     (if n < length (comp_of k s) then comp_set k ((comp_of k s)[n := Suc (comp_of k s ! n)]) s
      else s)"

text \<open>\<^verbatim>\<open>wait_for_completion\<close> blocks (\<open>None\<close>) while \<^verbatim>\<open>done\<close> is 0 and then takes one.
  The caller checks the index.\<close>

definition wait_for_completion :: "kind \<Rightarrow> nat \<Rightarrow> state \<Rightarrow> state option" where
  "wait_for_completion k n s =
     (if 0 < comp_of k s ! n then Some (comp_set k ((comp_of k s)[n := comp_of k s ! n - 1]) s)
      else None)"

subsection \<open>The threads\<close>

definition set_pc :: "nat \<Rightarrow> tpc \<Rightarrow> state \<Rightarrow> state" where
  "set_pc i p s = s\<lparr>threads := (threads s)[i := (threads s ! i)\<lparr>pc := p\<rparr>]\<rparr>"

text \<open>What a step of a thread did.\<close>

datatype event =
    Test bool
  | Exec instr
  | Printed_done
  | Completed
  | Main_step
  | Timer_fired

text \<open>
  \<^verbatim>\<open>while (atomic_read(&do_stuff)) { body }  printk("%s: done\n", current->comm);
  complete_and_exit(&rd_comp[N], 0);\<close>
  A step of thread \<open>i\<close>: \<open>None\<close> when the thread does not exist, has exited, or blocks.
\<close>

definition thread_step :: "config \<Rightarrow> nat \<Rightarrow> state \<Rightarrow> (event \<times> state) option" where
  "thread_step c i s =
     (if i < length (threads s) then
        (let t = threads s ! i; b = body (kind t) in
         case pc t of
           Head \<Rightarrow>
             (if atomic_read Do_stuff s \<noteq> 0 then Some (Test True, set_pc i (Body 0) s)
              else Some (Test False, set_pc i Print_done s))
         | Body k \<Rightarrow>
             (if k < length b then
                (case exec_instr c (b ! k) s of
                   None \<Rightarrow> None
                 | Some s' \<Rightarrow>
                     Some (Exec (b ! k),
                           set_pc i (if Suc k < length b then Body (Suc k) else Head) s'))
              else None)
         | Print_done \<Rightarrow>
             Some (Printed_done, set_pc i Complete (printk (Thread_done (kind t) (arg t)) s))
         | Complete \<Rightarrow> Some (Completed, set_pc i Exited (complete (kind t) (arg t) s))
         | Exited \<Rightarrow> None)
      else None)"

subsection \<open>The timer\<close>

text \<open>\<^verbatim>\<open>static void stop_test(unsigned long dummy) { atomic_set(&do_stuff, 0); }\<close>\<close>

definition stop_test :: "64 word \<Rightarrow> state \<Rightarrow> state" where
  "stop_test dummy s = atomic_set Do_stuff 0 s"

text \<open>The timer is armed by \<^verbatim>\<open>add_timer\<close> and fires once, at some moment before
  \<^verbatim>\<open>del_timer\<close>; elapsed time is not modelled. \<^verbatim>\<open>timer.data\<close> is never set, so the
  handler's argument is 0.\<close>

definition timer_step :: "state \<Rightarrow> state option" where
  "timer_step s = (if timer_pending s then Some ((stop_test 0 s)\<lparr>timer_pending := False\<rparr>) else None)"

subsection \<open>The init function\<close>

definition kernel_thread :: "kind \<Rightarrow> nat \<Rightarrow> state \<Rightarrow> state" where
  "kernel_thread k n s = s\<lparr>threads := threads s @ [\<lparr>kind = k, arg = n, pc = Head\<rparr>]\<rparr>"

definition num_of :: "config \<Rightarrow> kind \<Rightarrow> 32 word" where
  "num_of c k = (case k of Reader \<Rightarrow> numrd c | Writer \<Rightarrow> numwr c | Downgrader \<Rightarrow> numdg c)"

text \<open>\<^verbatim>\<open>if (loop < numrd) { init_completion(&rd_comp[loop]); kernel_thread(reader, (void *) loop, 0); }\<close>\<close>

definition spawn_if :: "config \<Rightarrow> kind \<Rightarrow> nat \<Rightarrow> state \<Rightarrow> state" where
  "spawn_if c k loop s =
     (if loop < as_ulong (num_of c k) then kernel_thread k loop (init_completion k loop s) else s)"

text \<open>One turn of \<^verbatim>\<open>for (loop = 0; loop < 20; loop++)\<close>.\<close>

definition spawn_iter :: "config \<Rightarrow> nat \<Rightarrow> state \<Rightarrow> state" where
  "spawn_iter c loop s = spawn_if c Downgrader loop (spawn_if c Writer loop (spawn_if c Reader loop s))"

text \<open>One turn of \<^verbatim>\<open>for (loop = 0; loop < numrd; loop++) wait_for_completion(&rd_comp[loop]);\<close>
  and of its two siblings: the loop ends when the test fails, the array has 20 elements,
  and the wait may block.\<close>

definition join_step :: "config \<Rightarrow> kind \<Rightarrow> nat \<Rightarrow> (nat \<Rightarrow> main_pc) \<Rightarrow> main_pc \<Rightarrow> state \<Rightarrow> state option" where
  "join_step c k loop again after s =
     (if loop < as_ulong (num_of c k) then
        (if loop < length (comp_of k s) then
           (case wait_for_completion k loop s of
              None \<Rightarrow> None
            | Some s' \<Rightarrow> Some (s'\<lparr>mpc := again (Suc loop)\<rparr>))
         else Some (s\<lparr>mpc := M_fault\<rparr>))
      else Some (s\<lparr>mpc := after\<rparr>))"

definition rwsem_init_module :: "config \<Rightarrow> state \<Rightarrow> state option" where
  "rwsem_init_module c s =
     (case mpc s of
        M_start \<Rightarrow> Some ((printk Starting_tests s)\<lparr>mpc := M_init_rwsem\<rparr>)
      | M_init_rwsem \<Rightarrow> Some ((init_rwsem s)\<lparr>mpc := M_set_do_stuff\<rparr>)
      | M_set_do_stuff \<Rightarrow> Some ((atomic_set Do_stuff 1 s)\<lparr>mpc := M_spawn 0\<rparr>)
      | M_spawn loop \<Rightarrow>
          (if loop < 20 then Some ((spawn_iter c loop s)\<lparr>mpc := M_spawn (Suc loop)\<rparr>)
           else Some (s\<lparr>mpc := M_add_timer\<rparr>))
      | M_add_timer \<Rightarrow> Some (s\<lparr>timer_pending := True, mpc := M_wait_rd 0\<rparr>)
      | M_wait_rd loop \<Rightarrow> join_step c Reader loop M_wait_rd (M_wait_wr 0) s
      | M_wait_wr loop \<Rightarrow> join_step c Writer loop M_wait_wr (M_wait_dg 0) s
      | M_wait_dg loop \<Rightarrow> join_step c Downgrader loop M_wait_dg M_clear_do_stuff s
      | M_clear_do_stuff \<Rightarrow> Some ((atomic_set Do_stuff 0 s)\<lparr>mpc := M_del_timer\<rparr>)
      | M_del_timer \<Rightarrow> Some (s\<lparr>timer_pending := False, mpc := M_print_counter\<rparr>)
      | M_print_counter \<Rightarrow> Some ((printk (Rwsem_counter (activity s)) s)\<lparr>mpc := M_print_reads\<rparr>)
      | M_print_reads \<Rightarrow>
          Some ((printk (Reads_taken_msg (atomic_read Reads_taken s)) s)\<lparr>mpc := M_print_writes\<rparr>)
      | M_print_writes \<Rightarrow>
          Some ((printk (Writes_taken_msg (atomic_read Writes_taken s)) s)\<lparr>mpc := M_print_downgrades\<rparr>)
      | M_print_downgrades \<Rightarrow>
          Some ((printk (Downgrades_taken_msg (atomic_read Downgrades_taken s)) s)\<lparr>mpc := M_return\<rparr>)
      | M_return \<Rightarrow> Some (s\<lparr>mpc := M_returned (- ENOANO)\<rparr>)
      | M_returned r \<Rightarrow> None
      | M_fault \<Rightarrow> None)"

subsection \<open>Interleaving\<close>

datatype actor = Main | Timer | Thr nat

definition step :: "config \<Rightarrow> actor \<Rightarrow> state \<Rightarrow> (event \<times> state) option" where
  "step c a s =
     (case a of
        Main \<Rightarrow> map_option (Pair Main_step) (rwsem_init_module c s)
      | Timer \<Rightarrow> map_option (Pair Timer_fired) (timer_step s)
      | Thr i \<Rightarrow> thread_step c i s)"

text \<open>The states the program can be in.\<close>

inductive reachable :: "config \<Rightarrow> state \<Rightarrow> bool" for c :: config where
  reachable_init: "reachable c init_state"
| reachable_step: "reachable c s \<Longrightarrow> step c a s = Some (e, s') \<Longrightarrow> reachable c s'"

text \<open>Running a schedule: the actors move in the order given; an actor that cannot
  move is passed over.\<close>

fun run :: "config \<Rightarrow> actor list \<Rightarrow> state \<Rightarrow> state" where
  "run c [] s = s"
| "run c (a # as) s = (case step c a s of None \<Rightarrow> run c as s | Some (e, s') \<Rightarrow> run c as s')"

fun trace :: "config \<Rightarrow> actor list \<Rightarrow> state \<Rightarrow> (actor \<times> event) list" where
  "trace c [] s = []"
| "trace c (a # as) s =
     (case step c a s of None \<Rightarrow> trace c as s | Some (e, s') \<Rightarrow> (a, e) # trace c as s')"

section \<open>Definitions for the proofs\<close>

subsection \<open>The report of the init function\<close>

text \<open>The four result lines, and how many of them the init function has printed when
  it stands at a given position.\<close>

fun is_result :: "msg \<Rightarrow> bool" where
  "is_result (Rwsem_counter a) = True"
| "is_result (Reads_taken_msg w) = True"
| "is_result (Writes_taken_msg w) = True"
| "is_result (Downgrades_taken_msg w) = True"
| "is_result m = False"

fun report_stage :: "main_pc \<Rightarrow> nat" where
  "report_stage M_print_reads = 1"
| "report_stage M_print_writes = 2"
| "report_stage M_print_downgrades = 3"
| "report_stage M_return = 4"
| "report_stage (M_returned r) = 4"
| "report_stage p = 0"

definition report_inv :: "state \<Rightarrow> bool" where
  "report_inv s \<longleftrightarrow>
     (\<exists>a x y z. filter is_result (klog s) =
        take (report_stage (mpc s))
          [Rwsem_counter a, Reads_taken_msg x, Writes_taken_msg y, Downgrades_taken_msg z])
     \<and> (\<forall>r. mpc s = M_returned r \<longrightarrow> r = - ENOANO)"

subsection \<open>A complete run with the default parameters\<close>

text \<open>One reader, one writer and one downgrader; the writer enters while the reader
  holds the semaphore, every thread finishes one turn of its loop, the timer fires, the
  threads exit, and the init function joins them and reports.\<close>

definition demo_schedule :: "actor list" where
  "demo_schedule =
     replicate 25 Main @
     [Thr 0, Thr 0, Thr 0, Thr 0, Thr 1, Thr 0, Thr 0, Thr 0, Thr 0, Thr 0, Thr 0] @
     replicate 10 (Thr 1) @ replicate 16 (Thr 2) @ [Timer] @
     concat (replicate 12 [Thr 0, Thr 1, Thr 2]) @ replicate 13 Main"

definition demo_final :: state where
  "demo_final = \<lparr>activity = 0, readers = 0, writers = 0, do_stuff = 0, reads_taken = 2,
     writes_taken = 2, downgrades_taken = 1,
     rd_comp = replicate 20 0, wr_comp = replicate 20 0, dg_comp = replicate 20 0,
     timer_pending = False,
     threads = [\<lparr>kind = Reader, arg = 0, pc = Exited\<rparr>, \<lparr>kind = Writer, arg = 0, pc = Exited\<rparr>,
                \<lparr>kind = Downgrader, arg = 0, pc = Exited\<rparr>],
     mpc = M_returned (- 55),
     klog = [Starting_tests, Thread_done Writer 0, Thread_done Downgrader 0, Thread_done Reader 0,
             Rwsem_counter 0, Reads_taken_msg 2, Writes_taken_msg 2, Downgrades_taken_msg 1],
     yields = 0\<rparr>"

datatype hold = Free | Rd | Wr

type_synonym local = "hold \<times> int \<times> int"

fun track :: "local \<Rightarrow> instr \<Rightarrow> local" where
  "track (h, r, w) Down_read = (Rd, r, w)"
| "track (h, r, w) Up_read = (Free, r, w)"
| "track (h, r, w) Down_write = (Wr, r, w)"
| "track (h, r, w) Up_write = (Free, r, w)"
| "track (h, r, w) Downgrade_write = (Rd, r, w)"
| "track (h, r, w) (Atomic_inc v) =
     (if v = Readers then (h, r + 1, w) else if v = Writers then (h, r, w + 1) else (h, r, w))"
| "track (h, r, w) (Atomic_dec v) =
     (if v = Readers then (h, r - 1, w) else if v = Writers then (h, r, w - 1) else (h, r, w))"
| "track (h, r, w) (Checka f v val) = (h, r, w)"
| "track (h, r, w) Sched_call = (h, r, w)"

fun requires :: "local \<Rightarrow> instr \<Rightarrow> bool" where
  "requires (h, r, w) Down_read = (h = Free)"
| "requires (h, r, w) Up_read = (h = Rd)"
| "requires (h, r, w) Down_write = (h = Free)"
| "requires (h, r, w) Up_write = (h = Wr)"
| "requires (h, r, w) Downgrade_write = (h = Wr)"
| "requires (h, r, w) (Atomic_inc v) = True"
| "requires (h, r, w) (Atomic_dec v) = True"
| "requires (h, r, w) (Checka f v val) =
     (if v = Writers \<and> val = 0 then h = Rd
      else if v = Writers \<and> val = 1 then h = Wr \<and> w = 1
      else if v = Readers \<and> val = 0 then h = Wr \<and> w = 1
      else False)"
| "requires (h, r, w) Sched_call = True"

fun good :: "local \<Rightarrow> bool" where
  "good (h, r, w) \<longleftrightarrow>
     0 \<le> r \<and> 0 \<le> w \<and> w \<le> (if h = Wr then 1 else 0) \<and> r + w \<le> (if h = Free then 0 else 1)"

fun checked :: "local \<Rightarrow> instr list \<Rightarrow> bool" where
  "checked a [] \<longleftrightarrow> a = (Free, 0, 0)"
| "checked a (i # is) \<longleftrightarrow> good a \<and> requires a i \<and> checked (track a i) is"

definition done_instrs :: "thread \<Rightarrow> instr list" where
  "done_instrs t = (case pc t of Body k \<Rightarrow> take k (body (kind t)) | _ \<Rightarrow> [])"

definition local_of :: "thread \<Rightarrow> local" where
  "local_of t = foldl track (Free, 0, 0) (done_instrs t)"

definition holds :: "thread \<Rightarrow> hold" where
  "holds t = fst (local_of t)"

definition holdsR :: "thread \<Rightarrow> int" where
  "holdsR t = (if holds t = Rd then 1 else 0)"

definition holdsW :: "thread \<Rightarrow> int" where
  "holdsW t = (if holds t = Wr then 1 else 0)"

definition shareR :: "thread \<Rightarrow> int" where
  "shareR t = fst (snd (local_of t))"

definition shareW :: "thread \<Rightarrow> int" where
  "shareW t = snd (snd (local_of t))"

definition tally :: "(thread \<Rightarrow> int) \<Rightarrow> state \<Rightarrow> int" where
  "tally f s = sum_list (map f (threads s))"

definition lock_inv :: "state \<Rightarrow> bool" where
  "lock_inv s \<longleftrightarrow>
     (tally holdsW s = 0 \<and> activity s = tally holdsR s
        \<or> tally holdsW s = 1 \<and> tally holdsR s = 0 \<and> activity s = - 1)
     \<and> readers s = word_of_int (tally shareR s)
     \<and> writers s = word_of_int (tally shareW s)
     \<and> (mpc s \<in> {M_start, M_init_rwsem} \<longrightarrow> threads s = [])"

fun is_check_failed :: "msg \<Rightarrow> bool" where
  "is_check_failed (Check_failed v val x f) = True"
| "is_check_failed m = False"

definition demo_prefix :: "actor list" where
  "demo_prefix = replicate 25 Main @ [Thr 0, Thr 0, Thr 0, Thr 0, Thr 1, Thr 2, Thr 1]"

definition demo_mid :: state where
  "demo_mid = \<lparr>activity = 1, readers = 1, writers = 0, do_stuff = 1, reads_taken = 1,
     writes_taken = 0, downgrades_taken = 0,
     rd_comp = replicate 20 0, wr_comp = replicate 20 0, dg_comp = replicate 20 0,
     timer_pending = True,
     threads = [\<lparr>kind = Reader, arg = 0, pc = Body 3\<rparr>, \<lparr>kind = Writer, arg = 0, pc = Body 0\<rparr>,
                \<lparr>kind = Downgrader, arg = 0, pc = Body 0\<rparr>],
     mpc = M_wait_rd 0, klog = [Starting_tests], yields = 0\<rparr>"

definition ident :: "thread \<Rightarrow> kind \<times> nat" where
  "ident t = (kind t, arg t)"

definition wanted :: "config \<Rightarrow> kind \<times> nat \<Rightarrow> bool" where
  "wanted c = (\<lambda>(k, n). n < as_ulong (num_of c k))"

definition spawn_turn :: "config \<Rightarrow> nat \<Rightarrow> (kind \<times> nat) list" where
  "spawn_turn c l = filter (wanted c) [(Reader, l), (Writer, l), (Downgrader, l)]"

definition spawned :: "config \<Rightarrow> nat \<Rightarrow> (kind \<times> nat) list" where
  "spawned c n = concat (map (spawn_turn c) [0..<n])"

fun progress :: "main_pc \<Rightarrow> nat" where
  "progress M_start = 0"
| "progress M_init_rwsem = 0"
| "progress M_set_do_stuff = 0"
| "progress (M_spawn l) = l"
| "progress p = 20"

definition spawn_inv :: "config \<Rightarrow> state \<Rightarrow> bool" where
  "spawn_inv c s \<longleftrightarrow>
     map ident (threads s) = spawned c (progress (mpc s))
     \<and> (\<forall>l. mpc s = M_spawn l \<longrightarrow> l \<le> 20)
     \<and> length (rd_comp s) = 20 \<and> length (wr_comp s) = 20 \<and> length (dg_comp s) = 20"

fun left_loop :: "main_pc \<Rightarrow> kind \<Rightarrow> bool" where
  "left_loop M_start k = False"
| "left_loop M_init_rwsem k = False"
| "left_loop M_set_do_stuff k = False"
| "left_loop (M_spawn l) k = False"
| "left_loop M_add_timer k = False"
| "left_loop (M_wait_rd l) k = False"
| "left_loop (M_wait_wr l) k = (k = Reader)"
| "left_loop (M_wait_dg l) k = (k \<noteq> Downgrader)"
| "left_loop M_fault k = False"
| "left_loop p k = True"

fun join_index :: "main_pc \<Rightarrow> (kind \<times> nat) option" where
  "join_index (M_wait_rd l) = Some (Reader, l)"
| "join_index (M_wait_wr l) = Some (Writer, l)"
| "join_index (M_wait_dg l) = Some (Downgrader, l)"
| "join_index p = None"

definition joined :: "main_pc \<Rightarrow> kind \<times> nat \<Rightarrow> bool" where
  "joined p = (\<lambda>(k, n). left_loop p k \<or> (\<exists>l. join_index p = Some (k, l) \<and> n < l))"

definition join_inv :: "config \<Rightarrow> state \<Rightarrow> bool" where
  "join_inv c s \<longleftrightarrow>
     (left_loop (mpc s) Reader \<longrightarrow> as_ulong (num_of c Reader) \<le> 20)
     \<and> (left_loop (mpc s) Writer \<longrightarrow> as_ulong (num_of c Writer) \<le> 20)
     \<and> (left_loop (mpc s) Downgrader \<longrightarrow> as_ulong (num_of c Downgrader) \<le> 20)
     \<and> (\<forall>k l. join_index (mpc s) = Some (k, l) \<longrightarrow> l \<le> 20)"

definition exit_inv :: "state \<Rightarrow> bool" where
  "exit_inv s \<longleftrightarrow>
     (\<forall>k n. n < 20 \<and> 0 < comp_of k s ! n \<longrightarrow>
        (\<exists>j < length (threads s). ident (threads s ! j) = (k, n) \<and> pc (threads s ! j) = Exited))
     \<and> (\<forall>j < length (threads s). joined (mpc s) (ident (threads s ! j)) \<longrightarrow>
          pc (threads s ! j) = Exited)"

definition joined_all :: "main_pc \<Rightarrow> bool" where
  "joined_all p = left_loop p Downgrader"

definition final_report :: "state \<Rightarrow> msg list" where
  "final_report s = [Rwsem_counter 0, Reads_taken_msg (reads_taken s),
     Writes_taken_msg (writes_taken s), Downgrades_taken_msg (downgrades_taken s)]"

definition final_inv :: "state \<Rightarrow> bool" where
  "final_inv s \<longleftrightarrow>
     (joined_all (mpc s) \<longrightarrow>
        (\<exists>pre. klog s = pre @ take (report_stage (mpc s)) (final_report s)))"

definition config21 :: config where
  "config21 = \<lparr>numrd = 21, numwr = 0, numdg = 0, elapse = 5, do_sched = 0\<rparr>"

definition schedule21 :: "actor list" where
  "schedule21 = replicate 25 Main @ [Timer] @ concat (map (\<lambda>i. replicate 3 (Thr i)) [0..<20])
     @ replicate 20 Main"

definition readers21 :: "tpc \<Rightarrow> thread list" where
  "readers21 p = map (\<lambda>n. \<lparr>kind = Reader, arg = n, pc = p\<rparr>) [0..<20]"

definition state21 :: state where
  "state21 = \<lparr>activity = 0, readers = 0, writers = 0, do_stuff = 0, reads_taken = 0,
     writes_taken = 0, downgrades_taken = 0,
     rd_comp = replicate 20 0, wr_comp = replicate 20 0, dg_comp = replicate 20 0,
     timer_pending = False, threads = readers21 Exited, mpc = M_wait_rd 20,
     klog = Starting_tests # map (Thread_done Reader) [0..<20], yields = 0\<rparr>"

fun code_of :: "func \<Rightarrow> instr list" where
  "code_of Dr = dr"
| "code_of Ur = ur"
| "code_of Dw = dw"
| "code_of Uw = uw"
| "code_of Dgw = dgw"

definition demo_misuse :: state where
  "demo_misuse = demo_mid\<lparr>writers := 5\<rparr>"

definition erase :: "state \<Rightarrow> state" where
  "erase s = s\<lparr>yields := 0\<rparr>"

definition no_sched :: "config \<Rightarrow> config" where
  "no_sched c = c\<lparr>do_sched := 0\<rparr>"

definition sched_config :: config where
  "sched_config = default_config\<lparr>do_sched := 1\<rparr>"

definition demo_final_sched :: state where
  "demo_final_sched = demo_final\<lparr>yields := 4\<rparr>"

definition in_dgw :: "thread \<Rightarrow> nat \<Rightarrow> bool" where
  "in_dgw t j \<longleftrightarrow> kind t = Downgrader \<and> pc t = Body (length dw + j) \<and> j \<le> length dgw"

definition demo_dgw_schedule :: "actor list" where
  "demo_dgw_schedule = replicate 25 Main @ replicate 10 (Thr 2) @ [Thr 0, Thr 1, Thr 0]"

definition demo_dgw :: state where
  "demo_dgw = \<lparr>activity = - 1, readers = 1, writers = 0, do_stuff = 1, reads_taken = 0,
     writes_taken = 1, downgrades_taken = 0,
     rd_comp = replicate 20 0, wr_comp = replicate 20 0, dg_comp = replicate 20 0,
     timer_pending = True,
     threads = [\<lparr>kind = Reader, arg = 0, pc = Body 0\<rparr>, \<lparr>kind = Writer, arg = 0, pc = Body 0\<rparr>,
                \<lparr>kind = Downgrader, arg = 0, pc = Body 9\<rparr>],
     mpc = M_wait_rd 0, klog = [Starting_tests], yields = 0\<rparr>"

definition events_of :: "nat \<Rightarrow> (actor \<times> event) list \<Rightarrow> event list" where
  "events_of i tr = map snd (filter (\<lambda>x. fst x = Thr i) tr)"

definition turn :: "kind \<Rightarrow> event list" where
  "turn k = Test True # map Exec (body k)"

definition finale :: "event list" where
  "finale = [Test False, Printed_done, Completed]"

fun is_sem_call :: "instr \<Rightarrow> bool" where
  "is_sem_call Down_read = True"
| "is_sem_call Up_read = True"
| "is_sem_call Down_write = True"
| "is_sem_call Up_write = True"
| "is_sem_call Downgrade_write = True"
| "is_sem_call ins = False"

text \<open>What is left of a thread's life from where it stands, with \<open>n\<close> more turns of
  the loop.\<close>

definition rest :: "thread \<Rightarrow> nat \<Rightarrow> event list" where
  "rest t n =
     (case pc t of
        Head \<Rightarrow> concat (replicate n (turn (kind t))) @ finale
      | Body k \<Rightarrow> map Exec (drop k (body (kind t))) @ concat (replicate n (turn (kind t))) @ finale
      | Print_done \<Rightarrow> [Printed_done, Completed]
      | Complete \<Rightarrow> [Completed]
      | Exited \<Rightarrow> [])"

definition occurrences :: "instr \<Rightarrow> (actor \<times> event) list \<Rightarrow> nat" where
  "occurrences ins tr = length (filter (\<lambda>x. snd x = Exec ins) tr)"

text \<open>The last statement of \<^verbatim>\<open>dr\<close>, \<^verbatim>\<open>dw\<close> and \<^verbatim>\<open>dgw\<close>: executing it completes the
  call that adds to the counter.\<close>

definition fin :: "var \<Rightarrow> instr" where
  "fin v = (if v = Reads_taken then last dr else if v = Writes_taken then last dw else last dgw)"

definition taken :: "var \<Rightarrow> bool" where
  "taken v \<longleftrightarrow> v = Reads_taken \<or> v = Writes_taken \<or> v = Downgrades_taken"

text \<open>1 while the thread is inside a call that has added to counter \<open>v\<close> and has not
  returned, else 0.\<close>

definition pending :: "var \<Rightarrow> thread \<Rightarrow> int" where
  "pending v t = int (count_list (done_instrs t) (Atomic_inc v)) - int (count_list (done_instrs t) (fin v))"

text \<open>A single reader, and a schedule in which it completes \<open>2 ^ 31\<close> turns of its loop
  before the timer fires. \<open>elapse\<close> gives the test a day; a turn of the loop is a matter
  of microseconds.\<close>

definition config_r :: config where
  "config_r = \<lparr>numrd = 1, numwr = 0, numdg = 0, elapse = 86400, do_sched = 0\<rparr>"

definition reader_turn :: "actor list" where
  "reader_turn = replicate 9 (Thr 0)"

definition busy :: "32 word \<Rightarrow> tpc \<Rightarrow> state" where
  "busy w p = \<lparr>activity = 0, readers = 0, writers = 0, do_stuff = 1, reads_taken = w,
     writes_taken = 0, downgrades_taken = 0,
     rd_comp = replicate 20 0, wr_comp = replicate 20 0, dg_comp = replicate 20 0,
     timer_pending = True, threads = [\<lparr>kind = Reader, arg = 0, pc = p\<rparr>],
     mpc = M_wait_rd 0, klog = [Starting_tests], yields = 0\<rparr>"

definition inside_dr :: "32 word \<Rightarrow> tpc \<Rightarrow> state" where
  "inside_dr w p = (busy w p)\<lparr>activity := 1, readers := 1\<rparr>"

definition wind_down :: "actor list" where
  "wind_down = [Timer, Thr 0, Thr 0, Thr 0] @ replicate 11 Main"

definition long_schedule :: "actor list" where
  "long_schedule = replicate 25 Main @ concat (replicate (2 ^ 31) reader_turn) @ wind_down"

definition into_dr :: "actor list" where
  "into_dr = [Thr 0, Thr 0, Thr 0]"

definition before_wrap :: "actor list" where
  "before_wrap = replicate 25 Main @ concat (replicate (2 ^ 31 - 1) reader_turn) @ into_dr"

definition wrapped_final :: state where
  "wrapped_final = \<lparr>activity = 0, readers = 0, writers = 0, do_stuff = 0,
     reads_taken = 2147483648, writes_taken = 0, downgrades_taken = 0,
     rd_comp = replicate 20 0, wr_comp = replicate 20 0, dg_comp = replicate 20 0,
     timer_pending = False, threads = [\<lparr>kind = Reader, arg = 0, pc = Exited\<rparr>],
     mpc = M_returned (- 55),
     klog = [Starting_tests, Thread_done Reader 0, Rwsem_counter 0, Reads_taken_msg 2147483648,
             Writes_taken_msg 0, Downgrades_taken_msg 0],
     yields = 0\<rparr>"

text \<open>The counts the start loop serves in full: from 0 to 20 threads of each kind, so that
  the join loops stay within the arrays of completions. The counts are read as the loops
  read them, converted to \<^verbatim>\<open>unsigned long\<close>; a negative count is beyond 20.\<close>

definition within_cap :: "config \<Rightarrow> bool" where
  "within_cap c \<longleftrightarrow>
     as_ulong (numrd c) \<le> 20 \<and> as_ulong (numwr c) \<le> 20 \<and> as_ulong (numdg c) \<le> 20"

text \<open>The init function has left the loop that starts the threads.\<close>

fun started :: "main_pc \<Rightarrow> bool" where
  "started M_start = False"
| "started M_init_rwsem = False"
| "started M_set_do_stuff = False"
| "started (M_spawn l) = False"
| "started M_fault = False"
| "started p = True"

text \<open>Every thread the start loop created has exited; every one of them has been waited
  for by the init function.\<close>

definition all_gone :: "state \<Rightarrow> bool" where
  "all_gone s \<longleftrightarrow> started (mpc s) \<and> list_all (\<lambda>t. pc t = Exited) (threads s)"

definition all_joined :: "state \<Rightarrow> bool" where
  "all_joined s \<longleftrightarrow> started (mpc s) \<and> list_all (\<lambda>t. joined (mpc s) (ident t)) (threads s)"

text \<open>A thread that has exited and has not been waited for has left its completion
  signalled.\<close>

definition signal_inv :: "state \<Rightarrow> bool" where
  "signal_inv s \<longleftrightarrow>
     (mpc s \<noteq> M_fault \<longrightarrow>
        (\<forall>j < length (threads s).
           pc (threads s ! j) = Exited \<and> \<not> joined (mpc s) (ident (threads s ! j)) \<longrightarrow>
             0 < comp_of (kind (threads s ! j)) s ! arg (threads s ! j)))"

text \<open>The steps the init function has to take from a position to its return, and to the
  first join loop.\<close>

fun togo :: "config \<Rightarrow> main_pc \<Rightarrow> nat" where
  "togo c M_return = 1"
| "togo c M_print_downgrades = 2"
| "togo c M_print_writes = 3"
| "togo c M_print_reads = 4"
| "togo c M_print_counter = 5"
| "togo c M_del_timer = 6"
| "togo c M_clear_do_stuff = 7"
| "togo c (M_wait_dg l) = 8 + (as_ulong (numdg c) - l)"
| "togo c (M_wait_wr l) = 9 + as_ulong (numdg c) + (as_ulong (numwr c) - l)"
| "togo c (M_wait_rd l) =
     10 + as_ulong (numdg c) + as_ulong (numwr c) + (as_ulong (numrd c) - l)"
| "togo c M_add_timer = 11 + as_ulong (numdg c) + as_ulong (numwr c) + as_ulong (numrd c)"
| "togo c p = 0"






text \<open>The report that goes with a run: the semaphore's counter 0, and the numbers of
  completed calls of \<^verbatim>\<open>dr\<close>, \<^verbatim>\<open>dw\<close> and \<^verbatim>\<open>dgw\<close> as the 32-bit values \<^verbatim>\<open>%d\<close> prints.\<close>

definition report_of :: "(actor \<times> event) list \<Rightarrow> msg list" where
  "report_of tr = [Rwsem_counter 0,
     Reads_taken_msg (of_nat (occurrences (last dr) tr)),
     Writes_taken_msg (of_nat (occurrences (last dw) tr)),
     Downgrades_taken_msg (of_nat (occurrences (last dgw) tr))]"

text \<open>The run with the default parameters up to the end of the last join loop.\<close>

definition demo_join :: "actor list" where
  "demo_join =
     replicate 25 Main @
     [Thr 0, Thr 0, Thr 0, Thr 0, Thr 1, Thr 0, Thr 0, Thr 0, Thr 0, Thr 0, Thr 0] @
     replicate 10 (Thr 1) @ replicate 16 (Thr 2) @ [Timer] @
     concat (replicate 12 [Thr 0, Thr 1, Thr 2]) @ replicate 5 Main"

definition demo_joined :: state where
  "demo_joined = \<lparr>activity = 0, readers = 0, writers = 0, do_stuff = 0, reads_taken = 2,
     writes_taken = 2, downgrades_taken = 1,
     rd_comp = replicate 20 0, wr_comp = replicate 20 0, dg_comp = replicate 20 0,
     timer_pending = False,
     threads = [\<lparr>kind = Reader, arg = 0, pc = Exited\<rparr>, \<lparr>kind = Writer, arg = 0, pc = Exited\<rparr>,
                \<lparr>kind = Downgrader, arg = 0, pc = Exited\<rparr>],
     mpc = M_wait_dg 1,
     klog = [Starting_tests, Thread_done Writer 0, Thread_done Downgrader 0, Thread_done Reader 0],
     yields = 0\<rparr>"

text \<open>A negative count.\<close>

definition config_neg :: config where
  "config_neg = \<lparr>numrd = 1, numwr = - 1, numdg = 1, elapse = 5, do_sched = 0\<rparr>"

section \<open>Basic facts\<close>

lemma reachable_run: "reachable c s \<Longrightarrow> reachable c (run c as s)"
  by (induction as arbitrary: s) (auto split: option.splits intro: reachable_step)


text \<open>The five ways a thread moves.\<close>

lemma thread_stepE:
  assumes "thread_step c i s = Some (e, s')"
  obtains
    (go) "i < length (threads s)" "pc (threads s ! i) = Head" "atomic_read Do_stuff s \<noteq> 0"
      "e = Test True" "s' = set_pc i (Body 0) s"
  | (stop) "i < length (threads s)" "pc (threads s ! i) = Head" "atomic_read Do_stuff s = 0"
      "e = Test False" "s' = set_pc i Print_done s"
  | (exec) k s1 where "i < length (threads s)" "pc (threads s ! i) = Body k"
      "k < length (body (kind (threads s ! i)))"
      "exec_instr c (body (kind (threads s ! i)) ! k) s = Some s1"
      "e = Exec (body (kind (threads s ! i)) ! k)"
      "s' = set_pc i (if Suc k < length (body (kind (threads s ! i))) then Body (Suc k) else Head) s1"
  | (print) "i < length (threads s)" "pc (threads s ! i) = Print_done" "e = Printed_done"
      "s' = set_pc i Complete (printk (Thread_done (kind (threads s ! i)) (arg (threads s ! i))) s)"
  | (complete) "i < length (threads s)" "pc (threads s ! i) = Complete" "e = Completed"
      "s' = set_pc i Exited (complete (kind (threads s ! i)) (arg (threads s ! i)) s)"
  using assms unfolding thread_step_def Let_def
  by (auto split: if_splits tpc.splits option.splits)

lemma stepE:
  assumes "step c a s = Some (e, s')"
  obtains
    (main) "a = Main" "e = Main_step" "rwsem_init_module c s = Some s'"
  | (timer) "a = Timer" "e = Timer_fired" "timer_step s = Some s'"
  | (thread) i where "a = Thr i" "thread_step c i s = Some (e, s')"
  using assms unfolding step_def by (cases a) auto


lemmas sem_defs = init_rwsem_def down_read_def up_read_def down_write_def up_write_def downgrade_write_def

lemmas prim_defs = atomic_inc_def atomic_dec_def checka_def printk_def sched_call_def schedule_def sem_defs

lemma atomic_read_set: "atomic_read v' (atomic_set v w s) = (if v' = v then w else atomic_read v' s)"
  by (cases v; cases v'; simp)

lemma atomic_set_frame [simp]:
  "activity (atomic_set v w s) = activity s"
  "rd_comp (atomic_set v w s) = rd_comp s"
  "wr_comp (atomic_set v w s) = wr_comp s"
  "dg_comp (atomic_set v w s) = dg_comp s"
  "timer_pending (atomic_set v w s) = timer_pending s"
  "threads (atomic_set v w s) = threads s"
  "mpc (atomic_set v w s) = mpc s"
  "klog (atomic_set v w s) = klog s"
  "yields (atomic_set v w s) = yields s"
  by (cases v; simp)+

lemma comp_set_frame [simp]:
  "activity (comp_set k xs s) = activity s"
  "readers (comp_set k xs s) = readers s"
  "writers (comp_set k xs s) = writers s"
  "do_stuff (comp_set k xs s) = do_stuff s"
  "reads_taken (comp_set k xs s) = reads_taken s"
  "writes_taken (comp_set k xs s) = writes_taken s"
  "downgrades_taken (comp_set k xs s) = downgrades_taken s"
  "timer_pending (comp_set k xs s) = timer_pending s"
  "threads (comp_set k xs s) = threads s"
  "mpc (comp_set k xs s) = mpc s"
  "klog (comp_set k xs s) = klog s"
  "yields (comp_set k xs s) = yields s"
  by (cases k; simp)+

lemma atomic_read_comp_set [simp]: "atomic_read v (comp_set k xs s) = atomic_read v s"
  by (cases v) simp_all

lemma comp_of_set: "comp_of k' (comp_set k xs s) = (if k' = k then xs else comp_of k' s)"
  by (cases k; cases k'; simp)

text \<open>What a statement leaves alone.\<close>

lemma exec_instr_frame:
  assumes "exec_instr c ins s = Some s'"
  shows "threads s' = threads s" and "mpc s' = mpc s" and "timer_pending s' = timer_pending s"
    and "rd_comp s' = rd_comp s" and "wr_comp s' = wr_comp s" and "dg_comp s' = dg_comp s"
  using assms by (cases ins; auto simp: prim_defs Let_def split: if_splits)+

lemma set_pc_frame [simp]:
  "activity (set_pc i p s) = activity s"
  "readers (set_pc i p s) = readers s"
  "writers (set_pc i p s) = writers s"
  "do_stuff (set_pc i p s) = do_stuff s"
  "reads_taken (set_pc i p s) = reads_taken s"
  "writes_taken (set_pc i p s) = writes_taken s"
  "downgrades_taken (set_pc i p s) = downgrades_taken s"
  "rd_comp (set_pc i p s) = rd_comp s"
  "wr_comp (set_pc i p s) = wr_comp s"
  "dg_comp (set_pc i p s) = dg_comp s"
  "timer_pending (set_pc i p s) = timer_pending s"
  "mpc (set_pc i p s) = mpc s"
  "klog (set_pc i p s) = klog s"
  "yields (set_pc i p s) = yields s"
  "threads (set_pc i p s) = (threads s)[i := (threads s ! i)\<lparr>pc := p\<rparr>]"
  by (simp_all add: set_pc_def)

lemma atomic_read_set_pc [simp]: "atomic_read v (set_pc i p s) = atomic_read v s"
  by (cases v) simp_all

lemma comp_of_set_pc [simp]: "comp_of k (set_pc i p s) = comp_of k s"
  by (cases k) simp_all

lemma thread_step_mpc: "thread_step c i s = Some (e, s') \<Longrightarrow> mpc s' = mpc s"
  by (erule thread_stepE) (auto simp: printk_def complete_def dest: exec_instr_frame)

lemma exec_instr_results:
  "exec_instr c ins s = Some s' \<Longrightarrow> filter is_result (klog s') = filter is_result (klog s)"
  by (cases ins) (auto simp: prim_defs Let_def split: if_splits)

lemma thread_step_results:
  "thread_step c i s = Some (e, s') \<Longrightarrow> filter is_result (klog s') = filter is_result (klog s)"
  by (erule thread_stepE) (auto simp: printk_def complete_def dest: exec_instr_results)

lemma spawn_if_frame [simp]:
  "activity (spawn_if c k l s) = activity s"
  "readers (spawn_if c k l s) = readers s"
  "writers (spawn_if c k l s) = writers s"
  "do_stuff (spawn_if c k l s) = do_stuff s"
  "reads_taken (spawn_if c k l s) = reads_taken s"
  "writes_taken (spawn_if c k l s) = writes_taken s"
  "downgrades_taken (spawn_if c k l s) = downgrades_taken s"
  "timer_pending (spawn_if c k l s) = timer_pending s"
  "mpc (spawn_if c k l s) = mpc s"
  "klog (spawn_if c k l s) = klog s"
  "yields (spawn_if c k l s) = yields s"
  by (simp_all add: spawn_if_def kernel_thread_def init_completion_def)

lemma spawn_iter_frame [simp]:
  "activity (spawn_iter c l s) = activity s"
  "readers (spawn_iter c l s) = readers s"
  "writers (spawn_iter c l s) = writers s"
  "do_stuff (spawn_iter c l s) = do_stuff s"
  "reads_taken (spawn_iter c l s) = reads_taken s"
  "writes_taken (spawn_iter c l s) = writes_taken s"
  "downgrades_taken (spawn_iter c l s) = downgrades_taken s"
  "timer_pending (spawn_iter c l s) = timer_pending s"
  "mpc (spawn_iter c l s) = mpc s"
  "klog (spawn_iter c l s) = klog s"
  "yields (spawn_iter c l s) = yields s"
  by (simp_all add: spawn_iter_def)

lemma atomic_read_spawn_iter [simp]: "atomic_read v (spawn_iter c l s) = atomic_read v s"
  by (cases v) simp_all

lemma report_inv_cong: "report_inv s \<Longrightarrow> klog s' = klog s \<Longrightarrow> mpc s' = mpc s \<Longrightarrow> report_inv s'"
  by (simp add: report_inv_def)

lemma report_inv_main:
  assumes "report_inv s" and "rwsem_init_module c s = Some s'"
  shows "report_inv s'"
proof (cases "mpc s")
  case M_print_counter
  with assms show ?thesis
    by (auto simp: report_inv_def rwsem_init_module_def printk_def)
next
  case M_print_reads
  with assms show ?thesis
    by (auto simp: report_inv_def rwsem_init_module_def printk_def)
next
  case M_print_writes
  with assms show ?thesis
    by (auto simp: report_inv_def rwsem_init_module_def printk_def)
next
  case M_print_downgrades
  with assms show ?thesis
    by (auto simp: report_inv_def rwsem_init_module_def printk_def)
qed (use assms in \<open>auto simp: report_inv_def rwsem_init_module_def printk_def init_rwsem_def
       join_step_def wait_for_completion_def split: if_splits\<close>)

lemma report_inv_reachable: "reachable c s \<Longrightarrow> report_inv s"
proof (induction rule: reachable.induct)
  case reachable_init
  show ?case by (simp add: report_inv_def init_state_def)
next
  case (reachable_step s a e s')
  from reachable_step.hyps(2) show ?case
  proof (cases rule: stepE)
    case main
    with reachable_step.IH show ?thesis by (blast intro: report_inv_main)
  next
    case timer
    then have "klog s' = klog s" "mpc s' = mpc s"
      by (auto simp: timer_step_def stop_test_def split: if_splits)
    with reachable_step.IH show ?thesis by (rule report_inv_cong)
  next
    case (thread i)
    from thread(2) have "filter is_result (klog s') = filter is_result (klog s)" "mpc s' = mpc s"
      by (rule thread_step_results, rule thread_step_mpc)
    with reachable_step.IH show ?thesis by (simp add: report_inv_def)
  qed
qed


lemmas model_defs = step_def rwsem_init_module_def spawn_iter_def spawn_if_def
  kernel_thread_def init_completion_def num_of_def as_ulong_def thread_step_def set_pc_def
  dr_def ur_def dw_def uw_def dgw_def sched_def prim_defs timer_step_def stop_test_def
  complete_def wait_for_completion_def join_step_def

lemma replicate_numeral: "replicate (numeral k) x = x # replicate (pred_numeral k) x"
  by (simp add: numeral_eq_Suc)

lemma demo_run: "run default_config demo_schedule init_state = demo_final"
  by (simp add: demo_schedule_def demo_final_def default_config_def init_state_def ENOANO_def
        model_defs replicate_numeral)

lemma demo_reachable: "reachable default_config demo_final"
  using reachable_run [OF reachable_init, of default_config demo_schedule] by (simp add: demo_run)

section \<open>The lock discipline of the threads\<close>

lemma checked_good: "checked a is \<Longrightarrow> good a"
  by (cases "is") auto

lemma checked_end: "checked a is \<Longrightarrow> foldl track a is = (Free, 0, 0)"
  by (induction "is" arbitrary: a) auto

lemma checked_nth:
  "checked a is \<Longrightarrow> k < length is \<Longrightarrow>
     good (foldl track a (take k is)) \<and> requires (foldl track a (take k is)) (is ! k)
     \<and> checked (track (foldl track a (take k is)) (is ! k)) (drop (Suc k) is)"
proof (induction "is" arbitrary: a k)
  case Nil
  then show ?case by simp
next
  case (Cons i "is")
  show ?case
  proof (cases k)
    case 0
    with Cons.prems show ?thesis by simp
  next
    case (Suc k')
    with Cons.prems have "checked (track a i) is" "k' < length is" by auto
    from Cons.IH [OF this] Suc show ?thesis by simp
  qed
qed

lemma checked_body: "checked (Free, 0, 0) (body kd)"
  by (cases kd) (simp_all add: dr_def ur_def dw_def uw_def dgw_def sched_def)

lemma good_local_of: "good (local_of t)"
proof (cases "pc t")
  case (Body k)
  show ?thesis
  proof (cases "k < length (body (kind t))")
    case True
    from checked_nth [OF checked_body this] Body show ?thesis
      by (simp add: local_of_def done_instrs_def)
  next
    case False
    with Body checked_end [OF checked_body, of "kind t"] show ?thesis
      by (simp add: local_of_def done_instrs_def)
  qed
qed (simp_all add: local_of_def done_instrs_def)

text \<open>A thread that executes statement \<open>k\<close> of its body.\<close>

lemma local_of_exec:
  assumes "pc t = Body k" and "k < length (body (kind t))"
  shows "requires (local_of t) (body (kind t) ! k)"
    and "local_of (t\<lparr>pc := if Suc k < length (body (kind t)) then Body (Suc k) else Head\<rparr>)
           = track (local_of t) (body (kind t) ! k)"
proof -
  let ?b = "body (kind t)"
  from checked_nth [OF checked_body assms(2)]
  have req: "requires (foldl track (Free, 0, 0) (take k ?b)) (?b ! k)"
    and rest: "checked (track (foldl track (Free, 0, 0) (take k ?b)) (?b ! k)) (drop (Suc k) ?b)"
    by auto
  from req assms(1) show "requires (local_of t) (?b ! k)"
    by (simp add: local_of_def done_instrs_def)
  show "local_of (t\<lparr>pc := if Suc k < length ?b then Body (Suc k) else Head\<rparr>)
           = track (local_of t) (?b ! k)"
  proof (cases "Suc k < length ?b")
    case True
    with assms show ?thesis
      by (simp add: local_of_def done_instrs_def take_Suc_conv_app_nth)
  next
    case False
    with assms(2) have "drop (Suc k) ?b = []" by simp
    with rest have "track (foldl track (Free, 0, 0) (take k ?b)) (?b ! k) = (Free, 0, 0)" by simp
    with False assms show ?thesis by (simp add: local_of_def done_instrs_def)
  qed
qed

lemma local_of_start:
  "pc t = Head \<or> pc t = Body 0 \<or> pc t = Print_done \<or> pc t = Complete \<or> pc t = Exited
     \<Longrightarrow> local_of t = (Free, 0, 0)"
  by (auto simp: local_of_def done_instrs_def)

lemma thread_bounds:
  "0 \<le> holdsR t" "0 \<le> holdsW t" "0 \<le> shareR t" "0 \<le> shareW t" "shareW t \<le> holdsW t"
  "shareR t + shareW t \<le> holdsR t + holdsW t" "holdsR t + holdsW t \<le> 1"
proof -
  obtain h r w where l: "local_of t = (h, r, w)" by (cases "local_of t")
  with good_local_of [of t]
  have g: "0 \<le> r" "0 \<le> w" "w \<le> (if h = Wr then 1 else 0)" "r + w \<le> (if h = Free then 0 else 1)"
    by simp_all
  show "0 \<le> holdsR t" "0 \<le> holdsW t" "holdsR t + holdsW t \<le> 1"
    by (simp_all add: holdsR_def holdsW_def)
  from g l show "0 \<le> shareR t" "0 \<le> shareW t" by (simp_all add: shareR_def shareW_def)
  from g l show "shareW t \<le> holdsW t" by (simp add: shareW_def holdsW_def holds_def)
  from g l show "shareR t + shareW t \<le> holdsR t + holdsW t"
    by (cases h) (simp_all add: shareR_def shareW_def holdsW_def holdsR_def holds_def)
qed

subsection \<open>Sums over the threads\<close>

lemma sum_list_map_update:
  fixes f :: "'a \<Rightarrow> int"
  shows "i < length xs \<Longrightarrow> sum_list (map f (xs[i := y])) = sum_list (map f xs) - f (xs ! i) + f y"
proof (induction xs arbitrary: i)
  case Nil
  then show ?case by simp
next
  case (Cons x xs)
  then show ?case by (cases i) auto
qed

lemma tally_set_pc:
  assumes "i < length (threads s)"
  shows "tally f (set_pc i p s) = tally f s - f (threads s ! i) + f ((threads s ! i)\<lparr>pc := p\<rparr>)"
  using assms by (simp add: tally_def sum_list_map_update)

lemma tally_nonneg: "(\<And>t. 0 \<le> f t) \<Longrightarrow> 0 \<le> tally f s"
  unfolding tally_def by (rule sum_list_nonneg) auto

lemma tally_mono: "(\<And>t. f t \<le> g t) \<Longrightarrow> tally f s \<le> tally g s"
  unfolding tally_def by (rule sum_list_mono) simp

lemma tally_add: "tally (\<lambda>t. f t + g t) s = tally f s + tally g s"
  by (simp add: tally_def sum_list_addf)

lemma tally_member:
  assumes "\<And>t. 0 \<le> f t" and "i < length (threads s)"
  shows "f (threads s ! i) \<le> tally f s"
proof -
  have "\<And>i. i < length xs \<Longrightarrow> f (xs ! i) \<le> sum_list (map f xs)" for xs
  proof (induction xs)
    case Nil
    then show ?case by simp
  next
    case (Cons x xs)
    have "0 \<le> sum_list (map f xs)" by (rule sum_list_nonneg) (auto simp: assms(1))
    with Cons assms(1) [of x] show ?case by (cases i) (auto intro: order_trans add_increasing)
  qed
  with assms(2) show ?thesis by (simp add: tally_def)
qed

lemma tally_bounds:
  "0 \<le> tally holdsR s" "0 \<le> tally holdsW s" "0 \<le> tally shareR s" "0 \<le> tally shareW s"
  "tally shareW s \<le> tally holdsW s"
  "tally shareR s + tally shareW s \<le> tally holdsR s + tally holdsW s"
proof -
  show "0 \<le> tally holdsR s" "0 \<le> tally holdsW s" "0 \<le> tally shareR s" "0 \<le> tally shareW s"
    by (simp_all add: tally_nonneg thread_bounds)
  show "tally shareW s \<le> tally holdsW s" by (rule tally_mono) (rule thread_bounds)
  have "tally (\<lambda>t. shareR t + shareW t) s \<le> tally (\<lambda>t. holdsR t + holdsW t) s"
    by (rule tally_mono) (rule thread_bounds)
  then show "tally shareR s + tally shareW s \<le> tally holdsR s + tally holdsW s"
    by (simp add: tally_add)
qed

lemma tally_frame:
  "threads s' = threads s \<Longrightarrow> tally f s' = tally f s"
  by (simp add: tally_def)


lemma flags_of_local:
  assumes "local_of t = (h, r, w)"
  shows "holdsR t = (if h = Rd then 1 else 0)" "holdsW t = (if h = Wr then 1 else 0)"
    "shareR t = r" "shareW t = w"
  using assms by (simp_all add: holdsR_def holdsW_def shareR_def shareW_def holds_def)

lemma exec_instr_cases:
  assumes "exec_instr c ins s = Some s1"
  shows "threads s1 = threads s \<and> mpc s1 = mpc s \<and>
    (case ins of
       Down_read \<Rightarrow> 0 \<le> activity s \<and> activity s1 = activity s + 1
         \<and> readers s1 = readers s \<and> writers s1 = writers s
     | Up_read \<Rightarrow> activity s1 = activity s - 1 \<and> readers s1 = readers s \<and> writers s1 = writers s
     | Down_write \<Rightarrow> activity s = 0 \<and> activity s1 = - 1
         \<and> readers s1 = readers s \<and> writers s1 = writers s
     | Up_write \<Rightarrow> activity s1 = 0 \<and> readers s1 = readers s \<and> writers s1 = writers s
     | Downgrade_write \<Rightarrow> activity s1 = 1 \<and> readers s1 = readers s \<and> writers s1 = writers s
     | Atomic_inc v \<Rightarrow> activity s1 = activity s
         \<and> readers s1 = (if v = Readers then readers s + 1 else readers s)
         \<and> writers s1 = (if v = Writers then writers s + 1 else writers s)
     | Atomic_dec v \<Rightarrow> activity s1 = activity s
         \<and> readers s1 = (if v = Readers then readers s - 1 else readers s)
         \<and> writers s1 = (if v = Writers then writers s - 1 else writers s)
     | Checka f v val \<Rightarrow> activity s1 = activity s \<and> readers s1 = readers s \<and> writers s1 = writers s
     | Sched_call \<Rightarrow> activity s1 = activity s \<and> readers s1 = readers s \<and> writers s1 = writers s)"
proof (cases ins)
  case (Atomic_inc v)
  with assms show ?thesis by (cases v) (auto simp: prim_defs)
next
  case (Atomic_dec v)
  with assms show ?thesis by (cases v) (auto simp: prim_defs)
qed (use assms in \<open>auto simp: prim_defs Let_def split: if_splits\<close>)

lemma lock_inv_exec:
  assumes inv: "lock_inv s" and i: "i < length (threads s)"
    and pc: "pc (threads s ! i) = Body k" and k: "k < length (body (kind (threads s ! i)))"
    and ex: "exec_instr c (body (kind (threads s ! i)) ! k) s = Some s1"
  shows "lock_inv (set_pc i (if Suc k < length (body (kind (threads s ! i))) then Body (Suc k) else Head) s1)"
proof -
  define t where "t = threads s ! i"
  define ins where "ins = body (kind t) ! k"
  define p where "p = (if Suc k < length (body (kind t)) then Body (Suc k) else Head)"
  obtain h r w where l: "local_of t = (h, r, w)" by (cases "local_of t")
  obtain h' r' w' where l': "local_of (t\<lparr>pc := p\<rparr>) = (h', r', w')" by (cases "local_of (t\<lparr>pc := p\<rparr>)")
  from local_of_exec [of t k] pc k l l'
  have req: "requires (h, r, w) ins" and tr: "track (h, r, w) ins = (h', r', w')"
    by (simp_all add: t_def ins_def p_def)
  from ex have ex': "exec_instr c ins s = Some s1" by (simp add: ins_def t_def)
  note ec = exec_instr_cases [OF ex']
  from ec have fr: "threads s1 = threads s" "mpc s1 = mpc s" by simp_all
  have tot: "tally f (set_pc i p s1) = tally f s - f t + f (t\<lparr>pc := p\<rparr>)" for f
    using tally_set_pc [of i s1 f p] i fr by (simp add: t_def tally_def)
  note fl = flags_of_local [OF l] flags_of_local [OF l']
  have mem: "holdsR t \<le> tally holdsR s" "holdsW t \<le> tally holdsW s"
    unfolding t_def by (rule tally_member [OF _ i], rule thread_bounds)+
  note tb = tally_bounds [of s]
  from i inv have ne: "mpc s \<notin> {M_start, M_init_rwsem}" by (auto simp: lock_inv_def)
  have "lock_inv (set_pc i p s1)"
  proof (cases ins)
    case Down_read
    with req tr ec inv mem tb ne show ?thesis
      by (auto simp: lock_inv_def tot fl)
  next
    case Up_read
    with req tr ec inv mem tb ne show ?thesis
      by (auto simp: lock_inv_def tot fl)
  next
    case Down_write
    with req tr ec inv mem tb ne show ?thesis
      by (auto simp: lock_inv_def tot fl)
  next
    case Up_write
    with req tr ec inv mem tb ne show ?thesis
      by (auto simp: lock_inv_def tot fl)
  next
    case Downgrade_write
    with req tr ec inv mem tb ne show ?thesis
      by (auto simp: lock_inv_def tot fl)
  next
    case (Atomic_inc v)
    with req tr ec inv mem tb ne show ?thesis
      by (auto simp: lock_inv_def tot fl split: if_splits)
  next
    case (Atomic_dec v)
    with req tr ec inv mem tb ne show ?thesis
      by (auto simp: lock_inv_def tot fl split: if_splits)
  next
    case (Checka f v val)
    with req tr ec inv mem tb ne show ?thesis
      by (auto simp: lock_inv_def tot fl split: if_splits)
  next
    case Sched_call
    with req tr ec inv mem tb ne show ?thesis
      by (auto simp: lock_inv_def tot fl split: if_splits)
  qed
  then show ?thesis by (simp add: p_def t_def)
qed


lemma flags_cong:
  assumes "local_of t' = local_of t"
  shows "holdsR t' = holdsR t" "holdsW t' = holdsW t" "shareR t' = shareR t" "shareW t' = shareW t"
  using assms by (simp_all add: holdsR_def holdsW_def shareR_def shareW_def holds_def)

lemma flags_start:
  assumes "pc t = Head \<or> pc t = Body 0 \<or> pc t = Print_done \<or> pc t = Complete \<or> pc t = Exited"
  shows "holdsR t = 0" "holdsW t = 0" "shareR t = 0" "shareW t = 0"
  using local_of_start [OF assms]
  by (simp_all add: holdsR_def holdsW_def shareR_def shareW_def holds_def)

lemma lock_inv_cong:
  assumes "lock_inv s" and "activity s' = activity s" and "readers s' = readers s"
    and "writers s' = writers s" and "mpc s' = mpc s"
    and "tally holdsR s' = tally holdsR s" and "tally holdsW s' = tally holdsW s"
    and "tally shareR s' = tally shareR s" and "tally shareW s' = tally shareW s"
    and "threads s = [] \<longrightarrow> threads s' = []"
  shows "lock_inv s'"
  using assms by (auto simp: lock_inv_def)

text \<open>A step of a thread between two positions outside the critical sections.\<close>

lemma lock_inv_idle:
  assumes inv: "lock_inv s" and i: "i < length (threads s)"
    and before: "pc (threads s ! i) = Head \<or> pc (threads s ! i) = Print_done \<or> pc (threads s ! i) = Complete"
    and after: "p = Body 0 \<or> p = Print_done \<or> p = Complete \<or> p = Exited"
    and fr: "threads s1 = threads s" "activity s1 = activity s" "readers s1 = readers s"
      "writers s1 = writers s" "mpc s1 = mpc s"
  shows "lock_inv (set_pc i p s1)"
proof -
  define t where "t = threads s ! i"
  have a: "holdsR t = 0" "holdsW t = 0" "shareR t = 0" "shareW t = 0"
    using before by (auto simp: t_def intro: flags_start)
  have b: "holdsR (t\<lparr>pc := p\<rparr>) = 0" "holdsW (t\<lparr>pc := p\<rparr>) = 0"
    "shareR (t\<lparr>pc := p\<rparr>) = 0" "shareW (t\<lparr>pc := p\<rparr>) = 0"
    using after by (auto intro: flags_start)
  have tot: "tally f (set_pc i p s1) = tally f s - f t + f (t\<lparr>pc := p\<rparr>)" for f
    using tally_set_pc [of i s1 f p] i fr(1) by (simp add: t_def tally_def)
  from inv show ?thesis
  proof (rule lock_inv_cong)
    show "threads s = [] \<longrightarrow> threads (set_pc i p s1) = []" using i by auto
  qed (simp_all add: fr tot a b)
qed

lemma complete_frame [simp]:
  "threads (complete k n s) = threads s" "activity (complete k n s) = activity s"
  "readers (complete k n s) = readers s" "writers (complete k n s) = writers s"
  "mpc (complete k n s) = mpc s" "klog (complete k n s) = klog s"
  by (simp_all add: complete_def)

lemma lock_inv_thread:
  assumes "lock_inv s" and "thread_step c i s = Some (e, s')"
  shows "lock_inv s'"
  using assms(2)
proof (cases rule: thread_stepE)
  case go
  with assms(1) show ?thesis by (auto intro!: lock_inv_idle)
next
  case stop
  with assms(1) show ?thesis by (auto intro!: lock_inv_idle)
next
  case (exec k s1)
  from lock_inv_exec [OF assms(1) exec(1-4)] exec(6) show ?thesis by simp
next
  case print
  with assms(1) show ?thesis by (auto intro!: lock_inv_idle simp: printk_def)
next
  case complete
  with assms(1) show ?thesis by (auto intro!: lock_inv_idle)
qed

lemma tally_spawn_if:
  assumes "f \<lparr>kind = k, arg = l, pc = Head\<rparr> = 0"
  shows "tally f (spawn_if c k l s) = tally f s"
  using assms by (simp add: tally_def spawn_if_def kernel_thread_def init_completion_def)

lemma tally_spawn_iter:
  assumes "\<And>k. f \<lparr>kind = k, arg = l, pc = Head\<rparr> = 0"
  shows "tally f (spawn_iter c l s) = tally f s"
  by (simp add: spawn_iter_def tally_spawn_if assms)

lemma tally_spawn_iter_flags [simp]:
  "tally holdsR (spawn_iter c l s) = tally holdsR s"
  "tally holdsW (spawn_iter c l s) = tally holdsW s"
  "tally shareR (spawn_iter c l s) = tally shareR s"
  "tally shareW (spawn_iter c l s) = tally shareW s"
  by (rule tally_spawn_iter, rule flags_start, simp)+

lemma tally_mpc_update [simp]: "tally f (s\<lparr>mpc := p\<rparr>) = tally f s"
  by (simp add: tally_def)

lemma join_step_frame:
  assumes "join_step c k l again after s = Some s'"
  shows "threads s' = threads s" "activity s' = activity s" "readers s' = readers s"
    "writers s' = writers s" "klog s' = klog s" "timer_pending s' = timer_pending s"
    "mpc s' = again (Suc l) \<or> mpc s' = M_fault \<or> mpc s' = after"
  using assms by (auto simp: join_step_def wait_for_completion_def split: if_splits)

lemma lock_inv_main:
  assumes inv: "lock_inv s" and st: "rwsem_init_module c s = Some s'"
  shows "lock_inv s'"
proof (cases "mpc s")
  case M_start
  with assms show ?thesis by (auto simp: rwsem_init_module_def lock_inv_def printk_def tally_def)
next
  case M_init_rwsem
  with assms show ?thesis by (auto simp: rwsem_init_module_def lock_inv_def init_rwsem_def tally_def)
next
  case (M_spawn l)
  with assms show ?thesis
    by (auto simp: rwsem_init_module_def lock_inv_def split: if_splits)
next
  case (M_wait_rd l)
  with st have "join_step c Reader l M_wait_rd (M_wait_wr 0) s = Some s'"
    by (simp add: rwsem_init_module_def)
  from join_step_frame [OF this] inv M_wait_rd show ?thesis
    by (auto simp: lock_inv_def tally_def)
next
  case (M_wait_wr l)
  with st have "join_step c Writer l M_wait_wr (M_wait_dg 0) s = Some s'"
    by (simp add: rwsem_init_module_def)
  from join_step_frame [OF this] inv M_wait_wr show ?thesis
    by (auto simp: lock_inv_def tally_def)
next
  case (M_wait_dg l)
  with st have "join_step c Downgrader l M_wait_dg M_clear_do_stuff s = Some s'"
    by (simp add: rwsem_init_module_def)
  from join_step_frame [OF this] inv M_wait_dg show ?thesis
    by (auto simp: lock_inv_def tally_def)
qed (use assms in \<open>auto simp: rwsem_init_module_def lock_inv_def printk_def tally_def\<close>)

lemma lock_inv_reachable: "reachable c s \<Longrightarrow> lock_inv s"
proof (induction rule: reachable.induct)
  case reachable_init
  show ?case by (simp add: lock_inv_def init_state_def tally_def)
next
  case (reachable_step s a e s')
  from reachable_step.hyps(2) show ?case
  proof (cases rule: stepE)
    case main
    with reachable_step.IH show ?thesis by (blast intro: lock_inv_main)
  next
    case timer
    with reachable_step.IH show ?thesis
      by (auto simp: timer_step_def stop_test_def lock_inv_def tally_def split: if_splits)
  next
    case (thread i)
    with reachable_step.IH show ?thesis by (blast intro: lock_inv_thread)
  qed
qed

lemma demo_prefix_run: "run default_config demo_prefix init_state = demo_mid"
  by (simp add: demo_prefix_def demo_mid_def default_config_def init_state_def
        model_defs replicate_numeral)

lemma demo_mid_reachable: "reachable default_config demo_mid"
  using reachable_run [OF reachable_init, of default_config demo_prefix]
  by (simp add: demo_prefix_run)

lemma checka_passes:
  assumes inv: "lock_inv s" and i: "i < length (threads s)"
    and pc: "pc (threads s ! i) = Body k" and k: "k < length (body (kind (threads s ! i)))"
    and ins: "body (kind (threads s ! i)) ! k = Checka f v val"
  shows "atomic_read v s = val"
proof -
  define t where "t = threads s ! i"
  obtain h r w where l: "local_of t = (h, r, w)" by (cases "local_of t")
  from local_of_exec(1) [of t k] pc k l ins
  have req: "requires (h, r, w) (Checka f v val)" by (simp add: t_def)
  note fl = flags_of_local [OF l]
  have mem: "holdsR t \<le> tally holdsR s" "holdsW t \<le> tally holdsW s" "shareW t \<le> tally shareW s"
    unfolding t_def by (rule tally_member [OF _ i], rule thread_bounds)+
  note tb = tally_bounds [of s]
  from req consider (a) "v = Writers" "val = 0" "h = Rd"
    | (b) "v = Writers" "val = 1" "h = Wr" "w = 1"
    | (c) "v = Readers" "val = 0" "h = Wr" "w = 1"
    by (auto split: if_splits)
  then show ?thesis
  proof cases
    case a
    with mem fl have "1 \<le> tally holdsR s" by simp
    with inv have "tally holdsW s = 0" by (auto simp: lock_inv_def)
    with tb have "tally shareW s = 0" by linarith
    with inv a show ?thesis by (simp add: lock_inv_def)
  next
    case b
    with mem fl have "1 \<le> tally holdsW s" "1 \<le> tally shareW s" by simp_all
    with inv tb have "tally shareW s = 1" by (auto simp: lock_inv_def)
    with inv b show ?thesis by (simp add: lock_inv_def)
  next
    case c
    with mem fl have "1 \<le> tally holdsW s" "1 \<le> tally shareW s" by simp_all
    with inv tb have "tally shareR s = 0" by (auto simp: lock_inv_def)
    with inv c show ?thesis by (simp add: lock_inv_def)
  qed
qed

lemma exec_instr_no_failure:
  assumes "exec_instr c ins s = Some s1" and "\<And>f v val. ins = Checka f v val \<Longrightarrow> atomic_read v s = val"
  shows "filter is_check_failed (klog s1) = filter is_check_failed (klog s)"
  using assms by (cases ins) (auto simp: prim_defs Let_def split: if_splits)

lemma no_failure_reachable: "reachable c s \<Longrightarrow> filter is_check_failed (klog s) = []"
proof (induction rule: reachable.induct)
  case reachable_init
  show ?case by (simp add: init_state_def)
next
  case (reachable_step s a e s')
  note inv = lock_inv_reachable [OF reachable_step.hyps(1)]
  from reachable_step.hyps(2) show ?case
  proof (cases rule: stepE)
    case main
    then have "filter is_check_failed (klog s') = filter is_check_failed (klog s)"
      by (cases "mpc s")
        (auto simp: rwsem_init_module_def printk_def init_rwsem_def split: if_splits
          dest: join_step_frame)
    with reachable_step.IH show ?thesis by simp
  next
    case timer
    with reachable_step.IH show ?thesis
      by (auto simp: timer_step_def stop_test_def split: if_splits)
  next
    case (thread i)
    from thread(2) have "filter is_check_failed (klog s') = filter is_check_failed (klog s)"
    proof (cases rule: thread_stepE)
      case (exec k s1)
      from exec_instr_no_failure [OF exec(4)] checka_passes [OF inv exec(1-3)] exec(6)
      show ?thesis by simp
    qed (simp_all add: printk_def)
    with reachable_step.IH show ?thesis by simp
  qed
qed

lemma tally_holdsW: "tally holdsW s = int (length (filter (\<lambda>t. holds t = Wr) (threads s)))"
proof -
  have "sum_list (map holdsW ts) = int (length (filter (\<lambda>t. holds t = Wr) ts))" for ts
    by (induction ts) (simp_all add: holdsW_def)
  then show ?thesis by (simp add: tally_def)
qed

lemma holder_counts:
  assumes "t \<in> set (threads s)"
  shows "holds t = Rd \<Longrightarrow> 1 \<le> tally holdsR s" and "holds t = Wr \<Longrightarrow> 1 \<le> tally holdsW s"
proof -
  from assms obtain i where i: "i < length (threads s)" "threads s ! i = t"
    by (auto simp: in_set_conv_nth)
  have "holdsR t \<le> tally holdsR s" "holdsW t \<le> tally holdsW s"
    unfolding i(2) [symmetric] by (rule tally_member [OF _ i(1)], rule thread_bounds)+
  then show "holds t = Rd \<Longrightarrow> 1 \<le> tally holdsR s" and "holds t = Wr \<Longrightarrow> 1 \<le> tally holdsW s"
    by (simp_all add: holdsR_def holdsW_def)
qed

text \<open>
  Claim C1. In every state the program can reach: the counter \<open>writers\<close> is 0 or 1, and
  it is 0 whenever \<open>readers\<close> is not 0; at most one thread holds the semaphore for
  writing, and none does while a thread holds it for reading; a thread that holds it keeps
  every \<^verbatim>\<open>down_write\<close> blocked, a writer keeps every \<^verbatim>\<open>down_read\<close> blocked; and no
  \<^verbatim>\<open>CHECKA\<close> has failed, so every \<^verbatim>\<open>dw\<close> has seen \<open>writers = 1\<close> and \<open>readers = 0\<close> and
  every \<^verbatim>\<open>dr\<close> has seen \<open>writers = 0\<close>.
\<close>

theorem mutual_exclusion:
  assumes "reachable c s"
  shows "(writers s = 0 \<or> writers s = 1) \<and> (readers s \<noteq> 0 \<longrightarrow> writers s = 0)
    \<and> length (filter (\<lambda>t. holds t = Wr) (threads s)) \<le> 1
    \<and> ((\<exists>t \<in> set (threads s). holds t = Rd) \<longrightarrow> (\<forall>t \<in> set (threads s). holds t \<noteq> Wr))
    \<and> ((\<exists>t \<in> set (threads s). holds t \<noteq> Free) \<longrightarrow> down_write s = None)
    \<and> ((\<exists>t \<in> set (threads s). holds t = Wr) \<longrightarrow> down_read s = None)
    \<and> filter is_check_failed (klog s) = []"
proof -
  note inv = lock_inv_reachable [OF assms]
  note tb = tally_bounds [of s]
  from inv have hw: "tally holdsW s = 0 \<or> tally holdsW s = 1 \<and> tally holdsR s = 0"
    and rd: "readers s = word_of_int (tally shareR s)"
    and wr: "writers s = word_of_int (tally shareW s)"
    by (auto simp: lock_inv_def)
  from hw tb have "tally shareW s = 0 \<or> tally shareW s = 1" by linarith
  with wr have w: "writers s = 0 \<or> writers s = 1" by auto
  have rw: "writers s = 0" if "readers s \<noteq> 0"
  proof -
    from that rd have "tally shareR s \<noteq> 0" by auto
    with hw tb have "tally shareW s = 0" by linarith
    with wr show ?thesis by simp
  qed
  from inv have n: "length (filter (\<lambda>t. holds t = Wr) (threads s)) \<le> 1"
    by (auto simp: lock_inv_def tally_holdsW)
  have excl: "holds t' \<noteq> Wr" if "t \<in> set (threads s)" "holds t = Rd" "t' \<in> set (threads s)" for t t'
    using holder_counts(1) [OF that(1,2)] holder_counts(2) [OF that(3)] inv
    by (auto simp: lock_inv_def)
  have dwn: "down_write s = None" if "t \<in> set (threads s)" "holds t \<noteq> Free" for t
    using holder_counts [OF that(1)] that(2) inv
    by (cases "holds t") (auto simp: lock_inv_def down_write_def)
  have drn: "down_read s = None" if "t \<in> set (threads s)" "holds t = Wr" for t
    using holder_counts(2) [OF that] inv by (auto simp: lock_inv_def down_read_def)
  from w rw n excl dwn drn no_failure_reachable [OF assms] show ?thesis by blast
qed

text \<open>A state of the default run: the reader is inside \<^verbatim>\<open>dr\<close> and holds the
  semaphore, the writer and the downgrader stand before \<^verbatim>\<open>down_write\<close>, which
  blocks.\<close>

theorem mutual_exclusion_witness:
  "reachable default_config demo_mid \<and> readers demo_mid = 1 \<and> writers demo_mid = 0
   \<and> holds (threads demo_mid ! 0) = Rd \<and> down_write demo_mid = None
   \<and> thread_step default_config 1 demo_mid = None
   \<and> filter is_check_failed (klog demo_mid) = []"
  using mutual_exclusion [OF demo_mid_reachable] demo_mid_reachable
  by (simp add: demo_mid_def holds_def local_of_def done_instrs_def dr_def model_defs)

lemma spawned_Suc: "spawned c (Suc n) = spawned c n @ spawn_turn c n"
  by (simp add: spawned_def)

lemma spawned_0 [simp]: "spawned c 0 = []"
  by (simp add: spawned_def)

lemma spawned_member:
  "(k, n) \<in> set (spawned c m) \<longleftrightarrow> n < m \<and> n < as_ulong (num_of c k)"
proof (induction m)
  case 0
  show ?case by simp
next
  case (Suc m)
  then show ?case
    by (cases k) (auto simp: spawned_Suc spawn_turn_def wanted_def less_Suc_eq)
qed

lemma spawned_distinct: "distinct (spawned c m)"
proof (induction m)
  case 0
  show ?case by simp
next
  case (Suc m)
  have "distinct (spawn_turn c m)" by (simp add: spawn_turn_def)
  moreover have "set (spawned c m) \<inter> set (spawn_turn c m) = {}"
    by (auto simp: spawned_member spawn_turn_def)
  ultimately show ?case using Suc by (simp add: spawned_Suc)
qed

lemma spawned_count:
  "length (filter (\<lambda>x. fst x = k) (spawned c m)) = min m (as_ulong (num_of c k))"
proof (induction m)
  case 0
  show ?case by simp
next
  case (Suc m)
  then show ?case
    by (cases k) (auto simp: spawned_Suc spawn_turn_def wanted_def)
qed

lemma spawned_length: "length (spawned c m) \<le> 3 * m"
  by (induction m) (auto simp: spawned_Suc spawn_turn_def)

lemma ident_update [simp]: "map ident (ts[i := (ts ! i)\<lparr>pc := p\<rparr>]) = map ident ts"
  by (cases "i < length ts") (auto simp: ident_def nth_list_update intro!: nth_equalityI)

lemma ident_spawn_iter:
  "map ident (threads (spawn_iter c l s)) = map ident (threads s) @ spawn_turn c l"
  by (simp add: spawn_iter_def spawn_if_def kernel_thread_def init_completion_def spawn_turn_def
        wanted_def ident_def)

lemma comp_lengths_spawn_iter [simp]:
  "length (rd_comp (spawn_iter c l s)) = length (rd_comp s)"
  "length (wr_comp (spawn_iter c l s)) = length (wr_comp s)"
  "length (dg_comp (spawn_iter c l s)) = length (dg_comp s)"
  by (simp_all add: spawn_iter_def spawn_if_def kernel_thread_def init_completion_def)

lemma comp_lengths_complete [simp]:
  "length (rd_comp (complete k n s)) = length (rd_comp s)"
  "length (wr_comp (complete k n s)) = length (wr_comp s)"
  "length (dg_comp (complete k n s)) = length (dg_comp s)"
  by (cases k, simp_all add: complete_def)+

lemma join_step_lengths:
  assumes "join_step c k l again after s = Some s'"
  shows "length (rd_comp s') = length (rd_comp s)" "length (wr_comp s') = length (wr_comp s)"
    "length (dg_comp s') = length (dg_comp s)"
proof -
  from assms have "length (rd_comp s') = length (rd_comp s) \<and> length (wr_comp s') = length (wr_comp s)
    \<and> length (dg_comp s') = length (dg_comp s)"
    by (cases k) (auto simp: join_step_def wait_for_completion_def split: if_splits)
  then show "length (rd_comp s') = length (rd_comp s)" "length (wr_comp s') = length (wr_comp s)"
    "length (dg_comp s') = length (dg_comp s)"
    by simp_all
qed

lemma spawn_inv_cong:
  assumes "spawn_inv c s" and "map ident (threads s') = map ident (threads s)"
    and "progress (mpc s') = progress (mpc s)" and "\<forall>l. mpc s' \<noteq> M_spawn l"
    and "length (rd_comp s') = length (rd_comp s)" and "length (wr_comp s') = length (wr_comp s)"
    and "length (dg_comp s') = length (dg_comp s)"
  shows "spawn_inv c s'"
  using assms by (simp add: spawn_inv_def)

lemma spawn_inv_join:
  assumes "spawn_inv c s" and "join_step c k l again after s = Some s'"
    and "progress (mpc s) = 20" and "\<And>n. progress (again n) = 20" and "progress after = 20"
    and "\<And>n n'. again n \<noteq> M_spawn n'" and "\<And>n'. after \<noteq> M_spawn n'"
  shows "spawn_inv c s'"
  using assms(1)
proof (rule spawn_inv_cong)
  from join_step_frame [OF assms(2)] assms(3-7)
  show "map ident (threads s') = map ident (threads s)" "progress (mpc s') = progress (mpc s)"
    "\<forall>l. mpc s' \<noteq> M_spawn l"
    by auto
qed (rule join_step_lengths [OF assms(2)])+

lemma spawn_inv_main:
  assumes inv: "spawn_inv c s" and st: "rwsem_init_module c s = Some s'"
  shows "spawn_inv c s'"
proof (cases "mpc s")
  case (M_spawn l)
  with assms show ?thesis
    by (auto simp: rwsem_init_module_def spawn_inv_def ident_spawn_iter spawned_Suc
        split: if_splits)
next
  case (M_wait_rd l)
  with st inv show ?thesis
    by (auto simp: rwsem_init_module_def intro: spawn_inv_join)
next
  case (M_wait_wr l)
  with st inv show ?thesis
    by (auto simp: rwsem_init_module_def intro: spawn_inv_join)
next
  case (M_wait_dg l)
  with st inv show ?thesis
    by (auto simp: rwsem_init_module_def intro: spawn_inv_join)
qed (use assms in \<open>auto simp: rwsem_init_module_def spawn_inv_def printk_def init_rwsem_def\<close>)

lemma thread_step_ident:
  assumes "thread_step c i s = Some (e, s')"
  shows "map ident (threads s') = map ident (threads s)" "mpc s' = mpc s"
    "length (rd_comp s') = length (rd_comp s)" "length (wr_comp s') = length (wr_comp s)"
    "length (dg_comp s') = length (dg_comp s)"
proof -
  from assms have "map ident (threads s') = map ident (threads s) \<and> mpc s' = mpc s
    \<and> length (rd_comp s') = length (rd_comp s) \<and> length (wr_comp s') = length (wr_comp s)
    \<and> length (dg_comp s') = length (dg_comp s)"
    by (cases rule: thread_stepE) (auto simp: printk_def dest: exec_instr_frame)
  then show "map ident (threads s') = map ident (threads s)" "mpc s' = mpc s"
    "length (rd_comp s') = length (rd_comp s)" "length (wr_comp s') = length (wr_comp s)"
    "length (dg_comp s') = length (dg_comp s)"
    by simp_all
qed

lemma spawn_inv_reachable: "reachable c s \<Longrightarrow> spawn_inv c s"
proof (induction rule: reachable.induct)
  case reachable_init
  show ?case by (simp add: spawn_inv_def init_state_def)
next
  case (reachable_step s a e s')
  from reachable_step.hyps(2) show ?case
  proof (cases rule: stepE)
    case main
    with reachable_step.IH show ?thesis by (blast intro: spawn_inv_main)
  next
    case timer
    with reachable_step.IH show ?thesis
      by (auto simp: timer_step_def stop_test_def spawn_inv_def split: if_splits)
  next
    case (thread i)
    from thread_step_ident [OF thread(2)] reachable_step.IH show ?thesis
      by (simp add: spawn_inv_def)
  qed
qed

lemma comp_length_20: "spawn_inv c s \<Longrightarrow> length (comp_of k s) = 20"
  by (cases k) (simp_all add: spawn_inv_def)

text \<open>The three ways a turn of a join loop ends.\<close>

lemma join_stepE:
  assumes "join_step c k l again after s = Some s'"
  obtains
    (waited) "l < as_ulong (num_of c k)" "l < length (comp_of k s)" "0 < comp_of k s ! l"
      "s' = (comp_set k ((comp_of k s)[l := comp_of k s ! l - 1]) s)\<lparr>mpc := again (Suc l)\<rparr>"
  | (fault) "l < as_ulong (num_of c k)" "length (comp_of k s) \<le> l" "s' = s\<lparr>mpc := M_fault\<rparr>"
  | (left) "as_ulong (num_of c k) \<le> l" "s' = s\<lparr>mpc := after\<rparr>"
  using assms by (auto simp: join_step_def wait_for_completion_def split: if_splits)

lemma join_inv_main:
  assumes inv: "join_inv c s" and sp: "spawn_inv c s" and st: "rwsem_init_module c s = Some s'"
  shows "join_inv c s'"
proof (cases "mpc s")
  case (M_wait_rd l)
  with st have "join_step c Reader l M_wait_rd (M_wait_wr 0) s = Some s'"
    by (simp add: rwsem_init_module_def)
  then show ?thesis
  proof (cases rule: join_stepE)
    case waited
    with inv M_wait_rd comp_length_20 [OF sp, of Reader] show ?thesis by (auto simp: join_inv_def)
  next
    case fault
    with inv M_wait_rd comp_length_20 [OF sp, of Reader] show ?thesis by (auto simp: join_inv_def)
  next
    case left
    with inv M_wait_rd comp_length_20 [OF sp, of Reader] show ?thesis by (auto simp: join_inv_def)
  qed
next
  case (M_wait_wr l)
  with st have "join_step c Writer l M_wait_wr (M_wait_dg 0) s = Some s'"
    by (simp add: rwsem_init_module_def)
  then show ?thesis
  proof (cases rule: join_stepE)
    case waited
    with inv M_wait_wr comp_length_20 [OF sp, of Writer] show ?thesis by (auto simp: join_inv_def)
  next
    case fault
    with inv M_wait_wr comp_length_20 [OF sp, of Writer] show ?thesis by (auto simp: join_inv_def)
  next
    case left
    with inv M_wait_wr comp_length_20 [OF sp, of Writer] show ?thesis by (auto simp: join_inv_def)
  qed
next
  case (M_wait_dg l)
  with st have "join_step c Downgrader l M_wait_dg M_clear_do_stuff s = Some s'"
    by (simp add: rwsem_init_module_def)
  then show ?thesis
  proof (cases rule: join_stepE)
    case waited
    with inv M_wait_dg comp_length_20 [OF sp, of Downgrader] show ?thesis by (auto simp: join_inv_def)
  next
    case fault
    with inv M_wait_dg comp_length_20 [OF sp, of Downgrader] show ?thesis by (auto simp: join_inv_def)
  next
    case left
    with inv M_wait_dg comp_length_20 [OF sp, of Downgrader] show ?thesis by (auto simp: join_inv_def)
  qed
qed (use inv st in \<open>auto simp: rwsem_init_module_def join_inv_def split: if_splits\<close>)

lemma join_inv_reachable: "reachable c s \<Longrightarrow> join_inv c s"
proof (induction rule: reachable.induct)
  case reachable_init
  show ?case by (simp add: join_inv_def init_state_def)
next
  case (reachable_step s a e s')
  from reachable_step.hyps(2) show ?case
  proof (cases rule: stepE)
    case main
    with reachable_step.IH spawn_inv_reachable [OF reachable_step.hyps(1)]
    show ?thesis by (blast intro: join_inv_main)
  next
    case timer
    with reachable_step.IH show ?thesis
      by (auto simp: timer_step_def stop_test_def join_inv_def split: if_splits)
  next
    case (thread i)
    from thread_step_mpc [OF thread(2)] reachable_step.IH show ?thesis
      by (simp add: join_inv_def)
  qed
qed


lemma exit_invI:
  assumes "\<And>k n. n < 20 \<Longrightarrow> 0 < comp_of k s ! n \<Longrightarrow>
      \<exists>j < length (threads s). ident (threads s ! j) = (k, n) \<and> pc (threads s ! j) = Exited"
    and "\<And>j. j < length (threads s) \<Longrightarrow> joined (mpc s) (ident (threads s ! j)) \<Longrightarrow>
      pc (threads s ! j) = Exited"
  shows "exit_inv s"
  using assms unfolding exit_inv_def by blast

lemma exit_inv_signalled:
  assumes "exit_inv s" and "n < 20" and "0 < comp_of k s ! n"
  obtains j where "j < length (threads s)" "ident (threads s ! j) = (k, n)"
    "pc (threads s ! j) = Exited"
  using assms unfolding exit_inv_def by blast

lemma exit_inv_joined:
  assumes "exit_inv s" and "j < length (threads s)" and "joined (mpc s) (ident (threads s ! j))"
  shows "pc (threads s ! j) = Exited"
  using assms unfolding exit_inv_def by blast

lemma comp_of_complete:
  "comp_of k' (complete k n s) ! m =
     (if k' = k \<and> m = n \<and> n < length (comp_of k s) then Suc (comp_of k s ! n) else comp_of k' s ! m)"
  by (cases k; cases k'; simp add: complete_def)

lemma ident_pc_update [simp]: "ident (t\<lparr>pc := p\<rparr>) = ident t"
  by (simp add: ident_def)

text \<open>What a step of thread \<open>i\<close> does to the list of threads and to the completions.\<close>

lemma thread_step_effect:
  assumes "thread_step c i s = Some (e, s')"
  obtains p where "i < length (threads s)" "pc (threads s ! i) \<noteq> Exited"
    "threads s' = (threads s)[i := (threads s ! i)\<lparr>pc := p\<rparr>]" "mpc s' = mpc s"
    "p = Exited \<longleftrightarrow> e = Completed"
    "\<And>k m. comp_of k s' ! m =
       (if e = Completed \<and> (k, m) = ident (threads s ! i) \<and> m < length (comp_of k s)
        then Suc (comp_of k s ! m) else comp_of k s ! m)"
  using assms
proof (cases rule: thread_stepE)
  case go
  then show ?thesis by (intro that [of "Body 0"]) auto
next
  case stop
  then show ?thesis by (intro that [of Print_done]) auto
next
  case (exec k s1)
  from exec_instr_frame [OF exec(4)] have "comp_of k' s1 = comp_of k' s" for k'
    by (cases k') simp_all
  with exec exec_instr_frame(1,2) [OF exec(4)] show ?thesis
    by (intro that [of "if Suc k < length (body (kind (threads s ! i))) then Body (Suc k) else Head"])
      (auto simp del: comp_of.simps)
next
  case print
  have "comp_of k' (printk m s) = comp_of k' s" for k' m
    by (cases k') (simp_all add: printk_def)
  with print show ?thesis
    by (intro that [of Complete]) (auto simp: printk_def simp del: comp_of.simps)
next
  case complete
  then show ?thesis
    by (intro that [of Exited]) (auto simp: comp_of_complete ident_def simp del: comp_of.simps)
qed

lemma exit_inv_thread:
  assumes inv: "exit_inv s" and st: "thread_step c i s = Some (e, s')"
  shows "exit_inv s'"
  using st
proof (cases rule: thread_step_effect)
  case (1 p)
  note i = 1(1) and ne = 1(2) and ts = 1(3) and m = 1(4) and pe = 1(5) and cm = 1(6)
  have other: "threads s' ! j = threads s ! j" if "j \<noteq> i" for j
    using that by (simp add: ts)
  have self: "ident (threads s' ! i) = ident (threads s ! i)" "pc (threads s' ! i) = p"
    using i by (simp_all add: ts)
  have len: "length (threads s') = length (threads s)" by (simp add: ts)
  show ?thesis
  proof (rule exit_invI)
    fix k n
    assume n: "n < 20" and pos: "0 < comp_of k s' ! n"
    show "\<exists>j<length (threads s'). ident (threads s' ! j) = (k, n) \<and> pc (threads s' ! j) = Exited"
    proof (cases "e = Completed \<and> (k, n) = ident (threads s ! i)")
      case True
      with self pe i len show ?thesis by (intro exI [of _ i]) simp
    next
      case False
      with pos cm [of k n] have "0 < comp_of k s ! n" by (simp split: if_splits)
      from exit_inv_signalled [OF inv n this] obtain j where j: "j < length (threads s)"
        "ident (threads s ! j) = (k, n)" "pc (threads s ! j) = Exited" .
      with ne have "j \<noteq> i" by auto
      with j other len show ?thesis by (intro exI [of _ j]) simp
    qed
  next
    fix j
    assume j: "j < length (threads s')" and jn: "joined (mpc s') (ident (threads s' ! j))"
    show "pc (threads s' ! j) = Exited"
    proof (cases "j = i")
      case True
      with jn self m have "joined (mpc s) (ident (threads s ! i))" by simp
      from exit_inv_joined [OF inv i this] ne show ?thesis by simp
    next
      case False
      with j jn other m len exit_inv_joined [OF inv, of j] show ?thesis by simp
    qed
  qed
qed


lemma exit_inv_mono:
  assumes inv: "exit_inv s" and ts: "threads s' = threads s @ new"
    and cm: "\<And>k n. comp_of k s' ! n \<le> comp_of k s ! n"
    and jn: "\<And>j. j < length (threads s') \<Longrightarrow> joined (mpc s') (ident (threads s' ! j)) \<Longrightarrow>
      j < length (threads s) \<and> (joined (mpc s) (ident (threads s ! j)) \<or> pc (threads s ! j) = Exited)"
  shows "exit_inv s'"
proof (rule exit_invI)
  fix k n
  assume n: "n < 20" and "0 < comp_of k s' ! n"
  with cm [of k n] have "0 < comp_of k s ! n" by simp
  from exit_inv_signalled [OF inv n this] obtain j where j: "j < length (threads s)"
    "ident (threads s ! j) = (k, n)" "pc (threads s ! j) = Exited" .
  then show "\<exists>j<length (threads s'). ident (threads s' ! j) = (k, n) \<and> pc (threads s' ! j) = Exited"
    by (intro exI [of _ j]) (simp add: ts nth_append)
next
  fix j
  assume "j < length (threads s')" and "joined (mpc s') (ident (threads s' ! j))"
  from jn [OF this] exit_inv_joined [OF inv, of j] show "pc (threads s' ! j) = Exited"
    by (auto simp: ts nth_append)
qed

lemma spawn_iter_threads: "\<exists>new. threads (spawn_iter c l s) = threads s @ new"
  by (simp add: spawn_iter_def spawn_if_def kernel_thread_def init_completion_def)

lemma nth_zeroed: "xs[l := 0 :: nat] ! n \<le> xs ! n"
  by (cases "l < length xs") (simp_all add: nth_list_update list_update_beyond)

lemma spawn_if_comp: "comp_of k (spawn_if c k' l s) ! n \<le> comp_of k s ! n"
  by (cases k; cases k')
    (simp_all add: spawn_if_def kernel_thread_def init_completion_def nth_zeroed)

lemma spawn_iter_comp: "comp_of k (spawn_iter c l s) ! n \<le> comp_of k s ! n"
  unfolding spawn_iter_def
  by (blast intro: order_trans spawn_if_comp)

lemma comp_of_mpc_update [simp]: "comp_of k (s\<lparr>mpc := p\<rparr>) = comp_of k s"
  by (cases k) simp_all

lemma spawned_ident:
  assumes "spawn_inv c s" and "j < length (threads s)"
  shows "arg (threads s ! j) < as_ulong (num_of c (kind (threads s ! j)))"
    and "arg (threads s ! j) < progress (mpc s)"
proof -
  from assms have "ident (threads s ! j) \<in> set (spawned c (progress (mpc s)))"
    by (metis spawn_inv_def nth_map nth_mem length_map)
  then show "arg (threads s ! j) < as_ulong (num_of c (kind (threads s ! j)))"
    and "arg (threads s ! j) < progress (mpc s)"
    by (simp_all add: ident_def spawned_member)
qed

lemma ident_inject:
  assumes "spawn_inv c s" and "j < length (threads s)" and "j' < length (threads s)"
    and "ident (threads s ! j) = ident (threads s ! j')"
  shows "j = j'"
proof -
  from assms(1) have "distinct (map ident (threads s))"
    by (simp add: spawn_inv_def spawned_distinct)
  with assms(2-4) show ?thesis by (auto simp: distinct_conv_nth)
qed

lemma exit_inv_join:
  assumes inv: "exit_inv s" and sp: "spawn_inv c s"
    and st: "join_step c k l again after s = Some s'"
    and now: "join_index (mpc s) = Some (k, l)"
    and again: "\<And>x. joined (again (Suc l)) x \<longleftrightarrow> joined (mpc s) x \<or> (fst x = k \<and> snd x < Suc l)"
    and after: "\<And>x. joined after x \<longleftrightarrow> joined (mpc s) x \<or> fst x = k"
  shows "exit_inv s'"
  using st
proof (cases rule: join_stepE)
  case waited
  have l20: "l < 20" using waited(2) comp_length_20 [OF sp, of k] by simp
  from exit_inv_signalled [OF inv l20 waited(3)] obtain j0 where j0: "j0 < length (threads s)"
    "ident (threads s ! j0) = (k, l)" "pc (threads s ! j0) = Exited" .
  from inv show ?thesis
  proof (rule exit_inv_mono [where new = "[]"])
    show "threads s' = threads s @ []" by (simp add: waited(4))
    show "comp_of k' s' ! n \<le> comp_of k' s ! n" for k' n
      using waited(2) by (cases "n = l") (simp_all add: waited(4) comp_of_set)
    fix j
    assume j: "j < length (threads s')" and jn: "joined (mpc s') (ident (threads s' ! j))"
    from j have j': "j < length (threads s)" by (simp add: waited(4))
    from jn have "joined (mpc s) (ident (threads s ! j))
      \<or> (fst (ident (threads s ! j)) = k \<and> snd (ident (threads s ! j)) < Suc l)"
      by (simp add: waited(4) again)
    then have "joined (mpc s) (ident (threads s ! j)) \<or> ident (threads s ! j) = (k, l)"
      using now by (cases "ident (threads s ! j)") (auto simp: joined_def less_Suc_eq)
    with j0 ident_inject [OF sp j' j0(1)] j'
    show "j < length (threads s) \<and> (joined (mpc s) (ident (threads s ! j)) \<or> pc (threads s ! j) = Exited)"
      by auto
  qed
next
  case fault
  from inv show ?thesis
    by (rule exit_inv_mono [where new = "[]"]) (simp_all add: fault joined_def)
next
  case left
  from inv show ?thesis
  proof (rule exit_inv_mono [where new = "[]"])
    fix j
    assume j: "j < length (threads s')" and jn: "joined (mpc s') (ident (threads s' ! j))"
    from j have j': "j < length (threads s)" by (simp add: left)
    from jn have "joined (mpc s) (ident (threads s ! j)) \<or> kind (threads s ! j) = k"
      by (simp add: left after ident_def)
    moreover have "joined (mpc s) (ident (threads s ! j))" if "kind (threads s ! j) = k"
      using spawned_ident(1) [OF sp j'] that left(1) now by (simp add: joined_def ident_def)
    ultimately show "j < length (threads s) \<and> (joined (mpc s) (ident (threads s ! j)) \<or> pc (threads s ! j) = Exited)"
      using j' by blast
  qed (simp_all add: left)
qed


lemma joined_simps [simp]:
  "joined M_start x = False" "joined M_init_rwsem x = False" "joined M_set_do_stuff x = False"
  "joined (M_spawn l) x = False" "joined M_add_timer x = False" "joined (M_wait_rd 0) x = False"
  "joined M_fault x = False"
  "joined M_clear_do_stuff x = True" "joined M_del_timer x = True" "joined M_print_counter x = True"
  "joined M_print_reads x = True" "joined M_print_writes x = True"
  "joined M_print_downgrades x = True" "joined M_return x = True" "joined (M_returned r) x = True"
  by (cases x; simp add: joined_def)+

lemma kind_neq: "k \<noteq> Downgrader \<Longrightarrow> k \<noteq> Writer \<Longrightarrow> k = Reader"
  by (cases k) simp_all

lemma exit_inv_same:
  assumes "exit_inv s" and "threads s' = threads s" and "\<And>k. comp_of k s' = comp_of k s"
    and "\<And>x. joined (mpc s') x \<Longrightarrow> joined (mpc s) x"
  shows "exit_inv s'"
  using assms(1)
  by (rule exit_inv_mono [where new = "[]"]) (simp_all add: assms(2-4))

lemma exit_inv_main:
  assumes inv: "exit_inv s" and sp: "spawn_inv c s" and st: "rwsem_init_module c s = Some s'"
  shows "exit_inv s'"
proof (cases "mpc s")
  case (M_spawn l)
  show ?thesis
  proof (cases "l < 20")
    case True
    with M_spawn st have s': "s' = (spawn_iter c l s)\<lparr>mpc := M_spawn (Suc l)\<rparr>"
      by (simp add: rwsem_init_module_def)
    from spawn_iter_threads obtain new where "threads (spawn_iter c l s) = threads s @ new" by blast
    then have "threads s' = threads s @ new" by (simp add: s')
    with inv show ?thesis
      by (rule exit_inv_mono) (simp_all add: s' spawn_iter_comp)
  next
    case False
    with M_spawn st have s': "s' = s\<lparr>mpc := M_add_timer\<rparr>"
      by (simp add: rwsem_init_module_def)
    from inv show ?thesis by (rule exit_inv_same) (simp_all add: s')
  qed
next
  case (M_wait_rd l)
  with st have "join_step c Reader l M_wait_rd (M_wait_wr 0) s = Some s'"
    by (simp add: rwsem_init_module_def)
  with inv sp show ?thesis
    by (rule exit_inv_join) (auto simp: M_wait_rd joined_def)
next
  case (M_wait_wr l)
  with st have "join_step c Writer l M_wait_wr (M_wait_dg 0) s = Some s'"
    by (simp add: rwsem_init_module_def)
  with inv sp show ?thesis
    by (rule exit_inv_join) (auto simp: M_wait_wr joined_def dest: kind_neq)
next
  case (M_wait_dg l)
  with st have "join_step c Downgrader l M_wait_dg M_clear_do_stuff s = Some s'"
    by (simp add: rwsem_init_module_def)
  with inv sp show ?thesis
    by (rule exit_inv_join) (auto simp: M_wait_dg joined_def dest: kind_neq)
next
  case M_start
  with st have s': "s' = (printk Starting_tests s)\<lparr>mpc := M_init_rwsem\<rparr>"
    by (simp add: rwsem_init_module_def)
  have cm: "comp_of k (printk m s) = comp_of k s" for k m by (cases k) (simp_all add: printk_def)
  from inv show ?thesis by (rule exit_inv_same) (use cm  in \<open>simp_all add: s' printk_def\<close>)
next
  case M_init_rwsem
  with st have s': "s' = (init_rwsem s)\<lparr>mpc := M_set_do_stuff\<rparr>"
    by (simp add: rwsem_init_module_def)
  have cm: "comp_of k (init_rwsem s) = comp_of k s" for k by (cases k) (simp_all add: init_rwsem_def)
  from inv show ?thesis by (rule exit_inv_same) (use cm  in \<open>simp_all add: s' init_rwsem_def\<close>)
next
  case M_set_do_stuff
  with st have s': "s' = (atomic_set Do_stuff 1 s)\<lparr>mpc := M_spawn 0\<rparr>"
    by (simp add: rwsem_init_module_def)
  have cm: "comp_of k (s\<lparr>do_stuff := w\<rparr>) = comp_of k s" for k w by (cases k) simp_all
  from inv show ?thesis by (rule exit_inv_same) (use cm  in \<open>simp_all add: s'\<close>)
next
  case M_add_timer
  with st have s': "s' = s\<lparr>timer_pending := True, mpc := M_wait_rd 0\<rparr>"
    by (simp add: rwsem_init_module_def)
  have cm: "comp_of k (s\<lparr>timer_pending := b\<rparr>) = comp_of k s" for k b by (cases k) simp_all
  from inv show ?thesis by (rule exit_inv_same) (use cm  in \<open>simp_all add: s'\<close>)
next
  case M_clear_do_stuff
  with st have s': "s' = (atomic_set Do_stuff 0 s)\<lparr>mpc := M_del_timer\<rparr>"
    by (simp add: rwsem_init_module_def)
  have cm: "comp_of k (s\<lparr>do_stuff := w\<rparr>) = comp_of k s" for k w by (cases k) simp_all
  from inv show ?thesis by (rule exit_inv_same) (use cm M_clear_do_stuff in \<open>simp_all add: s'\<close>)
next
  case M_del_timer
  with st have s': "s' = s\<lparr>timer_pending := False, mpc := M_print_counter\<rparr>"
    by (simp add: rwsem_init_module_def)
  have cm: "comp_of k (s\<lparr>timer_pending := b\<rparr>) = comp_of k s" for k b by (cases k) simp_all
  from inv show ?thesis by (rule exit_inv_same) (use cm M_del_timer in \<open>simp_all add: s'\<close>)
next
  case M_print_counter
  with st have s': "s' = (printk (Rwsem_counter (activity s)) s)\<lparr>mpc := M_print_reads\<rparr>"
    by (simp add: rwsem_init_module_def)
  have cm: "comp_of k (printk m s) = comp_of k s" for k m by (cases k) (simp_all add: printk_def)
  from inv show ?thesis by (rule exit_inv_same) (use cm M_print_counter in \<open>simp_all add: s' printk_def\<close>)
next
  case M_print_reads
  with st have s': "s' = (printk (Reads_taken_msg (reads_taken s)) s)\<lparr>mpc := M_print_writes\<rparr>"
    by (simp add: rwsem_init_module_def)
  have cm: "comp_of k (printk m s) = comp_of k s" for k m by (cases k) (simp_all add: printk_def)
  from inv show ?thesis by (rule exit_inv_same) (use cm M_print_reads in \<open>simp_all add: s' printk_def\<close>)
next
  case M_print_writes
  with st have s': "s' = (printk (Writes_taken_msg (writes_taken s)) s)\<lparr>mpc := M_print_downgrades\<rparr>"
    by (simp add: rwsem_init_module_def)
  have cm: "comp_of k (printk m s) = comp_of k s" for k m by (cases k) (simp_all add: printk_def)
  from inv show ?thesis by (rule exit_inv_same) (use cm M_print_writes in \<open>simp_all add: s' printk_def\<close>)
next
  case M_print_downgrades
  with st have s': "s' = (printk (Downgrades_taken_msg (downgrades_taken s)) s)\<lparr>mpc := M_return\<rparr>"
    by (simp add: rwsem_init_module_def)
  have cm: "comp_of k (printk m s) = comp_of k s" for k m by (cases k) (simp_all add: printk_def)
  from inv show ?thesis by (rule exit_inv_same) (use cm M_print_downgrades in \<open>simp_all add: s' printk_def\<close>)
next
  case M_return
  with st have s': "s' = s\<lparr>mpc := M_returned (- ENOANO)\<rparr>"
    by (simp add: rwsem_init_module_def)
  from inv show ?thesis by (rule exit_inv_same) (use M_return in \<open>simp_all add: s'\<close>)
next
  case (M_returned r)
  with st show ?thesis by (simp add: rwsem_init_module_def)
next
  case M_fault
  with st show ?thesis by (simp add: rwsem_init_module_def)
qed

lemma exit_inv_reachable: "reachable c s \<Longrightarrow> exit_inv s"
proof (induction rule: reachable.induct)
  case reachable_init
  have "comp_of k init_state ! n = 0" if "n < 20" for k n
    using that by (cases k) (simp_all add: init_state_def)
  then show ?case by (intro exit_invI) (simp_all add: init_state_def)
next
  case (reachable_step s a e s')
  from reachable_step.hyps(2) show ?case
  proof (cases rule: stepE)
    case main
    with reachable_step.IH spawn_inv_reachable [OF reachable_step.hyps(1)]
    show ?thesis by (blast intro: exit_inv_main)
  next
    case timer
    then have s': "s' = (stop_test 0 s)\<lparr>timer_pending := False\<rparr>"
      by (auto simp: timer_step_def split: if_splits)
    have cm: "comp_of k s' = comp_of k s" for k
      by (cases k) (simp_all add: s' stop_test_def)
    from reachable_step.IH show ?thesis
      by (rule exit_inv_same) (simp_all add: cm, simp_all add: s' stop_test_def)
  next
    case (thread i)
    with reachable_step.IH show ?thesis by (blast intro: exit_inv_thread)
  qed
qed

lemma joined_all_joined: "joined_all p \<Longrightarrow> joined p x"
  by (cases p; cases x) (simp_all add: joined_all_def joined_def)

lemma all_exited:
  assumes "reachable c s" and "joined_all (mpc s)" and "t \<in> set (threads s)"
  shows "pc t = Exited"
proof -
  from assms(3) obtain j where j: "j < length (threads s)" "threads s ! j = t"
    by (auto simp: in_set_conv_nth)
  from exit_inv_joined [OF exit_inv_reachable [OF assms(1)] j(1) joined_all_joined [OF assms(2)]] j(2)
  show ?thesis by simp
qed

lemma tally_zero: "(\<And>t. t \<in> set (threads s) \<Longrightarrow> f t = 0) \<Longrightarrow> tally f s = 0"
proof -
  have "(\<And>t. t \<in> set ts \<Longrightarrow> f t = 0) \<Longrightarrow> sum_list (map f ts) = 0" for ts
    by (induction ts) simp_all
  then show "(\<And>t. t \<in> set (threads s) \<Longrightarrow> f t = 0) \<Longrightarrow> tally f s = 0"
    by (simp add: tally_def)
qed

lemma idle_after_join:
  assumes "reachable c s" and "joined_all (mpc s)"
  shows "activity s = 0" "readers s = 0" "writers s = 0"
proof -
  have z: "tally holdsR s = 0" "tally holdsW s = 0" "tally shareR s = 0" "tally shareW s = 0"
    by (rule tally_zero, rule flags_start, simp add: all_exited [OF assms])+
  with lock_inv_reachable [OF assms(1)] show "activity s = 0" "readers s = 0" "writers s = 0"
    by (simp_all add: lock_inv_def)
qed

lemma no_thread_step_after_join:
  assumes "reachable c s" and "joined_all (mpc s)"
  shows "thread_step c i s = None"
proof (cases "i < length (threads s)")
  case True
  then have "pc (threads s ! i) = Exited" by (intro all_exited [OF assms]) simp
  with True show ?thesis by (simp add: thread_step_def)
next
  case False
  then show ?thesis by (simp add: thread_step_def)
qed

lemma final_inv_reachable: "reachable c s \<Longrightarrow> final_inv s"
proof (induction rule: reachable.induct)
  case reachable_init
  show ?case by (simp add: final_inv_def init_state_def joined_all_def)
next
  case (reachable_step s a e s')
  note r = reachable_step.hyps(1)
  from reachable_step.hyps(2) show ?case
  proof (cases rule: stepE)
    case main
    show ?thesis
    proof (cases "mpc s")
      case (M_wait_dg l)
      with main(3) have "join_step c Downgrader l M_wait_dg M_clear_do_stuff s = Some s'"
        by (simp add: rwsem_init_module_def)
      from join_step_frame(7) [OF this] show ?thesis
        by (auto simp: final_inv_def joined_all_def)
    next
      case M_print_counter
      with idle_after_join(1) [OF r] reachable_step.IH main(3) show ?thesis
        by (auto simp: final_inv_def joined_all_def rwsem_init_module_def printk_def final_report_def)
    next
      case M_print_reads
      with reachable_step.IH main(3) show ?thesis
        by (auto simp: final_inv_def joined_all_def rwsem_init_module_def printk_def final_report_def)
    next
      case M_print_writes
      with reachable_step.IH main(3) show ?thesis
        by (auto simp: final_inv_def joined_all_def rwsem_init_module_def printk_def final_report_def)
    next
      case M_print_downgrades
      with reachable_step.IH main(3) show ?thesis
        by (auto simp: final_inv_def joined_all_def rwsem_init_module_def printk_def final_report_def)
    next
      case (M_wait_rd l)
      with main(3) have "join_step c Reader l M_wait_rd (M_wait_wr 0) s = Some s'"
        by (simp add: rwsem_init_module_def)
      from join_step_frame(7) [OF this] show ?thesis
        by (auto simp: final_inv_def joined_all_def)
    next
      case (M_wait_wr l)
      with main(3) have "join_step c Writer l M_wait_wr (M_wait_dg 0) s = Some s'"
        by (simp add: rwsem_init_module_def)
      from join_step_frame(7) [OF this] show ?thesis
        by (auto simp: final_inv_def joined_all_def)
    qed (use reachable_step.IH main(3) in \<open>auto simp: final_inv_def joined_all_def
          rwsem_init_module_def final_report_def split: if_splits\<close>)
  next
    case timer
    with reachable_step.IH show ?thesis
      by (auto simp: timer_step_def stop_test_def final_inv_def final_report_def split: if_splits)
  next
    case (thread i)
    show ?thesis
    proof (cases "joined_all (mpc s)")
      case True
      from no_thread_step_after_join [OF r this, of i] thread(2) show ?thesis by simp
    next
      case False
      with thread_step_mpc [OF thread(2)] show ?thesis by (simp add: final_inv_def)
    qed
  qed
qed



lemma as_ulong_eq: "as_ulong w = nat (sint w mod 2 ^ 64)"
  unfolding as_ulong_def unat_eq_nat_uint scast_eq uint_word_of_int by simp

lemma as_ulong_nonneg: "0 \<le> sint w \<Longrightarrow> as_ulong w = nat (sint w)"
proof -
  assume a: "0 \<le> sint w"
  have "sint w < 2 ^ 31" using sint_lt [of w] by simp
  then have "sint w < 2 ^ 64" by simp
  with a show ?thesis by (simp add: as_ulong_eq)
qed

lemma as_ulong_neg: "sint w < 0 \<Longrightarrow> as_ulong w = nat (sint w + 2 ^ 64)"
proof -
  assume a: "sint w < 0"
  have "- (2 ^ 31) \<le> sint w" using sint_ge [of w] by simp
  then have b: "0 \<le> sint w + 2 ^ 64" by simp
  have "sint w mod 2 ^ 64 = (sint w + 2 ^ 64) mod 2 ^ 64" by simp
  also have "\<dots> = sint w + 2 ^ 64" using a b by (intro mod_pos_pos_trivial) simp_all
  finally show ?thesis by (simp add: as_ulong_eq)
qed

lemma as_ulong_gt_20: "20 < as_ulong w \<longleftrightarrow> 20 < sint w \<or> sint w < 0"
proof (cases "0 \<le> sint w")
  case True
  then show ?thesis by (simp add: as_ulong_nonneg) linarith
next
  case False
  have "- (2 ^ 31) \<le> sint w" using sint_ge [of w] by simp
  with False show ?thesis by (simp add: as_ulong_neg)
qed


lemma upt_20: "[0..<20] = [0, 1, 2, 3, 4, 5, 6, 7, 8, 9, 10, 11, 12, 13, 14, 15, 16, 17, 18, 19]"
  by (simp add: upt_rec)

lemma run21: "run config21 schedule21 init_state = state21"
  by (simp add: schedule21_def state21_def config21_def init_state_def readers21_def upt_20
        model_defs replicate_numeral)

lemma state21_reachable: "reachable config21 state21"
  using reachable_run [OF reachable_init, of config21 schedule21] by (simp add: run21)


section \<open>The limit of 20 threads\<close>

lemma kind_count:
  assumes "spawn_inv c s"
  shows "length (filter (\<lambda>t. kind t = k) (threads s)) = min (progress (mpc s)) (as_ulong (num_of c k))"
proof -
  have *: "length (filter (\<lambda>t. kind t = k) ts) = length (filter (\<lambda>x. fst x = k) (map ident ts))" for ts
    by (induction ts) (simp_all add: ident_def)
  from assms have "map ident (threads s) = spawned c (progress (mpc s))"
    by (simp add: spawn_inv_def)
  then show ?thesis unfolding * by (simp only: spawned_count)
qed

lemma progress_le_20: "spawn_inv c s \<Longrightarrow> progress (mpc s) \<le> 20"
  by (cases "mpc s") (simp_all add: spawn_inv_def)

text \<open>
  Claim C9. In every reachable state, for each kind of thread: there are at most 20
  threads of the kind and no more than the configured count (read as the unsigned value the
  comparison uses), and each has an argument below 20 and below the count; the start loop
  creates a thread of the kind exactly when the index is below the count. When the count
  is above 20 (or negative), the join loop of the kind at index 20 finds the completion
  array too short (the \<open>M_fault\<close> state), no thread has the argument 20 and so none would
  ever complete that element, and the init function never gets beyond that join loop, so
  it never returns.
\<close>

theorem thread_cap_and_join_overrun:
  assumes "reachable c s"
  shows "length (filter (\<lambda>t. kind t = k) (threads s)) \<le> 20
    \<and> length (filter (\<lambda>t. kind t = k) (threads s)) \<le> as_ulong (num_of c k)
    \<and> (\<forall>t \<in> set (threads s). arg t < 20 \<and> arg t < as_ulong (num_of c (kind t)))
    \<and> threads (spawn_if c k l s) =
          (if l < as_ulong (num_of c k) then threads s @ [\<lparr>kind = k, arg = l, pc = Head\<rparr>]
           else threads s)
    \<and> (20 < sint (num_of c k) \<or> sint (num_of c k) < 0 \<longrightarrow>
          join_step c k 20 again after s = Some (s\<lparr>mpc := M_fault\<rparr>)
          \<and> (\<forall>t \<in> set (threads s). arg t \<noteq> 20)
          \<and> \<not> left_loop (mpc s) k \<and> (\<forall>r. mpc s \<noteq> M_returned r))"
proof -
  note sp = spawn_inv_reachable [OF assms]
  note pr = progress_le_20 [OF sp]
  have a: "length (filter (\<lambda>t. kind t = k) (threads s)) \<le> 20"
    "length (filter (\<lambda>t. kind t = k) (threads s)) \<le> as_ulong (num_of c k)"
    using pr by (simp_all add: kind_count [OF sp])
  have b: "arg t < 20 \<and> arg t < as_ulong (num_of c (kind t))" if "t \<in> set (threads s)" for t
  proof -
    from that obtain j where "j < length (threads s)" "threads s ! j = t"
      by (auto simp: in_set_conv_nth)
    with spawned_ident [OF sp, of j] pr show ?thesis by auto
  qed
  have d: "threads (spawn_if c k l s) =
          (if l < as_ulong (num_of c k) then threads s @ [\<lparr>kind = k, arg = l, pc = Head\<rparr>]
           else threads s)"
    by (simp add: spawn_if_def kernel_thread_def init_completion_def)
  have e: "join_step c k 20 again after s = Some (s\<lparr>mpc := M_fault\<rparr>)
          \<and> (\<forall>t \<in> set (threads s). arg t \<noteq> 20)
          \<and> \<not> left_loop (mpc s) k \<and> (\<forall>r. mpc s \<noteq> M_returned r)"
    if "20 < sint (num_of c k) \<or> sint (num_of c k) < 0"
  proof -
    from that have big: "20 < as_ulong (num_of c k)" by (simp add: as_ulong_gt_20)
    with comp_length_20 [OF sp, of k]
    have "join_step c k 20 again after s = Some (s\<lparr>mpc := M_fault\<rparr>)"
      by (simp add: join_step_def)
    moreover have "\<forall>t \<in> set (threads s). arg t \<noteq> 20"
    proof
      fix t assume "t \<in> set (threads s)"
      from b [OF this] show "arg t \<noteq> 20" by simp
    qed
    moreover from join_inv_reachable [OF assms] big have nl: "\<not> left_loop (mpc s) k"
      by (cases k) (auto simp: join_inv_def)
    moreover from nl have "mpc s \<noteq> M_returned r" for r by auto
    ultimately show ?thesis by blast
  qed
  from a b d e show ?thesis by blast
qed

text \<open>With 21 readers configured, 20 are started; when they have exited and the init
  function has waited for them, its next wait is at index 20.\<close>

theorem thread_cap_and_join_overrun_witness:
  "reachable config21 state21 \<and> sint (num_of config21 Reader) = 21
   \<and> length (filter (\<lambda>t. kind t = Reader) (threads state21)) = 20
   \<and> mpc state21 = M_wait_rd 20
   \<and> rwsem_init_module config21 state21 = Some (state21\<lparr>mpc := M_fault\<rparr>)"
  using thread_cap_and_join_overrun [OF state21_reachable, of Reader 0 M_wait_rd "M_wait_wr 0"]
    state21_reachable
  by (simp add: state21_def config21_def num_of_def readers21_def upt_20 rwsem_init_module_def)

section \<open>CHECKA\<close>

lemma exec_instr_log: "exec_instr c ins s = Some s' \<Longrightarrow> \<exists>more. klog s' = klog s @ more"
  by (cases ins) (auto simp: prim_defs Let_def split: if_splits)

lemma step_log: "step c a s = Some (e, s') \<Longrightarrow> \<exists>more. klog s' = klog s @ more"
proof (erule stepE)
  assume "rwsem_init_module c s = Some s'"
  then show ?thesis
    by (cases "mpc s")
      (auto simp: rwsem_init_module_def printk_def init_rwsem_def split: if_splits
        dest: join_step_frame)
next
  assume "timer_step s = Some s'"
  then show ?thesis by (auto simp: timer_step_def stop_test_def split: if_splits)
next
  fix i assume "thread_step c i s = Some (e, s')"
  then show ?thesis
    by (cases rule: thread_stepE) (auto simp: printk_def dest: exec_instr_log)
qed

lemma run_log: "\<exists>more. klog (run c as s) = klog s @ more"
proof (induction as arbitrary: s)
  case Nil
  show ?case by simp
next
  case (Cons a as)
  show ?case
  proof (cases "step c a s")
    case None
    with Cons show ?thesis by simp
  next
    case (Some x)
    obtain e s' where x: "x = (e, s')" by (cases x)
    from step_log [of c a s e s'] Some x obtain m1 where "klog s' = klog s @ m1" by auto
    moreover from Cons [of s'] obtain m2 where "klog (run c as s') = klog s' @ m2" by auto
    ultimately show ?thesis using Some x by simp
  qed
qed

lemma checka_in_its_function:
  "Checka f v val \<in> set (body kd) \<Longrightarrow> Checka f v val \<in> set (code_of f)"
  by (cases kd; cases f) (auto simp: dr_def ur_def dw_def uw_def dgw_def sched_def)

text \<open>
  Claim C7. When a thread executes a \<^verbatim>\<open>CHECKA(var, val)\<close> of \<^verbatim>\<open>dr\<close>, \<^verbatim>\<open>ur\<close>,
  \<^verbatim>\<open>dw\<close>, \<^verbatim>\<open>uw\<close> or \<^verbatim>\<open>dgw\<close> and the counter differs from \<open>val\<close>, that very step
  appends to the kernel log the message with the variable, the expected and the observed
  value and the name of the function that contains the check; the message stays in the log
  in whatever follows. When the counter equals \<open>val\<close> the step prints nothing.
\<close>

theorem checka_reports_misuse:
  assumes "i < length (threads s)" and "pc (threads s ! i) = Body k"
    and "k < length (body (kind (threads s ! i)))"
    and "body (kind (threads s ! i)) ! k = Checka f v val"
  shows "\<exists>s'. thread_step c i s = Some (Exec (Checka f v val), s')
    \<and> klog s' = (if atomic_read v s \<noteq> val
                  then klog s @ [Check_failed v val (atomic_read v s) f] else klog s)
    \<and> Checka f v val \<in> set (code_of f)
    \<and> (atomic_read v s \<noteq> val \<longrightarrow>
         (\<forall>as. Check_failed v val (atomic_read v s) f \<in> set (klog (run c as s'))))"
proof -
  define s' where "s' = set_pc i
    (if Suc k < length (body (kind (threads s ! i))) then Body (Suc k) else Head) (checka f v val s)"
  from assms have st: "thread_step c i s = Some (Exec (Checka f v val), s')"
    by (simp add: thread_step_def s'_def)
  have lg: "klog s' = (if atomic_read v s \<noteq> val
                  then klog s @ [Check_failed v val (atomic_read v s) f] else klog s)"
    by (simp add: s'_def checka_def printk_def Let_def)
  from assms(3,4) have "Checka f v val \<in> set (body (kind (threads s ! i)))"
    by (metis nth_mem)
  then have fn: "Checka f v val \<in> set (code_of f)" by (rule checka_in_its_function)
  have "Check_failed v val (atomic_read v s) f \<in> set (klog (run c as s'))"
    if "atomic_read v s \<noteq> val" for as
  proof -
    from run_log [of c as s'] obtain more where "klog (run c as s') = klog s' @ more" by blast
    with lg that show ?thesis by simp
  qed
  with st lg fn show ?thesis by blast
qed

text \<open>A state that only misuse can produce: \<open>writers\<close> is 5 while the reader is about
  to check it at the end of \<^verbatim>\<open>dr\<close>.\<close>

theorem checka_reports_misuse_witness:
  "0 < length (threads demo_misuse) \<and> pc (threads demo_misuse ! 0) = Body 3
   \<and> body (kind (threads demo_misuse ! 0)) ! 3 = Checka Dr Writers 0
   \<and> atomic_read Writers demo_misuse \<noteq> 0
   \<and> map_option (klog \<circ> snd) (thread_step default_config 0 demo_misuse)
        = Some [Starting_tests, Check_failed Writers 0 5 Dr]"
  using checka_reports_misuse [of 0 demo_misuse 3 Dr Writers 0 default_config]
  by (auto simp: demo_misuse_def demo_mid_def dr_def)

section \<open>Stopping the test\<close>

text \<open>
  Claim C6. \<^verbatim>\<open>stop_test\<close> only writes 0 to \<open>do_stuff\<close>: it changes no other variable (so
  no taken-counter), calling it again changes nothing more, whatever the argument and however
  many times, and the init function's own \<^verbatim>\<open>atomic_set(&do_stuff, 0)\<close> after it changes
  nothing either; when the timer fires while the init function stands at its own clear
  the two may go in either order with the same result; and a state after the join has
  the semaphore free however many times \<^verbatim>\<open>stop_test\<close> is called in it.
\<close>

theorem stop_test_idempotent:
  "stop_test d s = s\<lparr>do_stuff := 0\<rparr>
   \<and> stop_test d' (stop_test d s) = stop_test d s
   \<and> (stop_test d ^^ Suc n) s = stop_test d s
   \<and> atomic_set Do_stuff 0 (stop_test d s) = stop_test d s
   \<and> (timer_pending s \<and> mpc s = M_clear_do_stuff \<longrightarrow>
        run c [Main, Timer] s = run c [Timer, Main] s)
   \<and> (reachable c s \<and> joined_all (mpc s) \<longrightarrow> activity ((stop_test d ^^ n) s) = 0)"
proof -
  have a: "stop_test d s = s\<lparr>do_stuff := 0\<rparr>" for d s by (simp add: stop_test_def)
  have b: "(stop_test d ^^ Suc n) s = stop_test d s" for n
    by (induction n) (simp_all add: a)
  have c: "activity ((stop_test d ^^ n) s) = activity s" for n
    by (induction n) (simp_all add: a)
  have e: "run c [Main, Timer] s = run c [Timer, Main] s"
    if "timer_pending s" "mpc s = M_clear_do_stuff"
    using that by (simp add: step_def rwsem_init_module_def timer_step_def a)
  from a b c e idle_after_join(1) [of c s] show ?thesis by (simp del: funpow.simps)
qed

theorem stop_test_idempotent_witness:
  "reachable default_config demo_final \<and> joined_all (mpc demo_final)
   \<and> activity ((stop_test 0 ^^ 3) demo_final) = 0
   \<and> stop_test 0 (stop_test 7 demo_final) = demo_final
   \<and> (let s = demo_final\<lparr>mpc := M_clear_do_stuff, timer_pending := True\<rparr>
      in run default_config [Main, Timer] s = run default_config [Timer, Main] s)"
  using stop_test_idempotent [where d = 0 and s = demo_final and d' = 7 and n = 3
      and c = default_config]
    stop_test_idempotent [where d = 0 and n = 0 and c = default_config
      and s = "demo_final\<lparr>mpc := M_clear_do_stuff, timer_pending := True\<rparr>"]
    demo_reachable
  by (simp add: demo_final_def joined_all_def stop_test_def)

section \<open>sched\<close>

lemma erase_fields [simp]:
  "activity (erase s) = activity s" "readers (erase s) = readers s" "writers (erase s) = writers s"
  "do_stuff (erase s) = do_stuff s" "reads_taken (erase s) = reads_taken s"
  "writes_taken (erase s) = writes_taken s" "downgrades_taken (erase s) = downgrades_taken s"
  "rd_comp (erase s) = rd_comp s" "wr_comp (erase s) = wr_comp s" "dg_comp (erase s) = dg_comp s"
  "timer_pending (erase s) = timer_pending s" "threads (erase s) = threads s"
  "mpc (erase s) = mpc s" "klog (erase s) = klog s" "yields (erase s) = 0"
  by (simp_all add: erase_def)

lemma erase_update [simp]:
  "erase (s\<lparr>mpc := p\<rparr>) = (erase s)\<lparr>mpc := p\<rparr>"
  "erase (s\<lparr>timer_pending := b\<rparr>) = (erase s)\<lparr>timer_pending := b\<rparr>"
  "erase (s\<lparr>activity := a\<rparr>) = (erase s)\<lparr>activity := a\<rparr>"
  "erase (s\<lparr>klog := ms\<rparr>) = (erase s)\<lparr>klog := ms\<rparr>"
  "erase (s\<lparr>threads := ts\<rparr>) = (erase s)\<lparr>threads := ts\<rparr>"
  "erase (s\<lparr>yields := y\<rparr>) = erase s"
  by (simp_all add: erase_def)

lemma erase_atomic [simp]:
  "atomic_read v (erase s) = atomic_read v s"
  "erase (atomic_set v w s) = atomic_set v w (erase s)"
  by (cases v; simp add: erase_def)+

lemma erase_comp [simp]:
  "comp_of k (erase s) = comp_of k s"
  "erase (comp_set k xs s) = comp_set k xs (erase s)"
  by (cases k; simp add: erase_def)+

lemma erase_prims [simp]:
  "erase (atomic_inc v s) = atomic_inc v (erase s)"
  "erase (atomic_dec v s) = atomic_dec v (erase s)"
  "erase (printk m s) = printk m (erase s)"
  "erase (checka f v val s) = checka f v val (erase s)"
  "erase (init_rwsem s) = init_rwsem (erase s)"
  "erase (up_read s) = up_read (erase s)"
  "erase (up_write s) = up_write (erase s)"
  "erase (downgrade_write s) = downgrade_write (erase s)"
  "erase (set_pc i p s) = set_pc i p (erase s)"
  "erase (complete k n s) = complete k n (erase s)"
  "erase (stop_test d s) = stop_test d (erase s)"
  "erase (kernel_thread k n s) = kernel_thread k n (erase s)"
  "erase (init_completion k n s) = init_completion k n (erase s)"
  by (simp_all add: prim_defs Let_def set_pc_def complete_def stop_test_def kernel_thread_def
        init_completion_def)

lemma exec_instr_erase:
  "exec_instr (no_sched c) ins (erase s) = map_option erase (exec_instr c ins s)"
  by (cases ins) (simp_all add: down_read_def down_write_def sched_call_def schedule_def no_sched_def)


lemma num_of_no_sched [simp]: "num_of (no_sched c) k = num_of c k"
  by (cases k) (simp_all add: num_of_def no_sched_def)

lemma spawn_iter_erase: "spawn_iter (no_sched c) l (erase s) = erase (spawn_iter c l s)"
  by (simp add: spawn_iter_def spawn_if_def)

lemma join_step_erase:
  "join_step (no_sched c) k l again after (erase s) = map_option erase (join_step c k l again after s)"
  by (simp add: join_step_def wait_for_completion_def)

lemma init_erase:
  "rwsem_init_module (no_sched c) (erase s) = map_option erase (rwsem_init_module c s)"
  by (cases "mpc s") (simp_all add: rwsem_init_module_def spawn_iter_erase join_step_erase)

lemma timer_step_erase: "timer_step (erase s) = map_option erase (timer_step s)"
  by (simp add: timer_step_def)

lemma thread_step_erase:
  "thread_step (no_sched c) i (erase s) = map_option (map_prod id erase) (thread_step c i s)"
proof (cases "i < length (threads s)")
  case True
  show ?thesis
  proof (cases "pc (threads s ! i)")
    case (Body k)
    with True show ?thesis
      by (cases "exec_instr c (body (kind (threads s ! i)) ! k) s")
        (simp_all add: thread_step_def exec_instr_erase Let_def)
  qed (use True in \<open>simp_all add: thread_step_def Let_def\<close>)
next
  case False
  then show ?thesis by (simp add: thread_step_def)
qed

lemma step_erase: "step (no_sched c) a (erase s) = map_option (map_prod id erase) (step c a s)"
  by (cases a)
    (simp_all add: step_def init_erase timer_step_erase thread_step_erase option.map_comp comp_def)

lemma run_erase:
  "run (no_sched c) as (erase s) = erase (run c as s) \<and> trace (no_sched c) as (erase s) = trace c as s"
proof (induction as arbitrary: s)
  case Nil
  show ?case by simp
next
  case (Cons a as)
  show ?case
  proof (cases "step c a s")
    case None
    with Cons show ?thesis by (simp add: step_erase)
  next
    case (Some x)
    obtain e s' where "x = (e, s')" by (cases x)
    with Some Cons [of s'] show ?thesis by (simp add: step_erase)
  qed
qed

lemma step_yields:
  assumes "step c a s = Some (e, s')"
  shows "yields s' = yields s + (if e = Exec Sched_call \<and> do_sched c \<noteq> 0 then 1 else 0)"
  using assms
proof (cases rule: stepE)
  case main
  then show ?thesis
    by (cases "mpc s")
      (auto simp: rwsem_init_module_def printk_def init_rwsem_def join_step_def
        wait_for_completion_def split: if_splits)
next
  case timer
  then show ?thesis by (auto simp: timer_step_def stop_test_def split: if_splits)
next
  case (thread i)
  from thread(2) show ?thesis
  proof (cases rule: thread_stepE)
    case (exec k s1)
    then show ?thesis
      by (cases "body (kind (threads s ! i)) ! k")
        (auto simp: prim_defs Let_def complete_def split: if_splits)
  qed (simp_all add: printk_def complete_def)
qed

lemma run_yields:
  "yields (run c as s) = yields s +
     (if do_sched c \<noteq> 0 then length (filter (\<lambda>x. snd x = Exec Sched_call) (trace c as s)) else 0)"
proof (induction as arbitrary: s)
  case Nil
  show ?case by simp
next
  case (Cons a as)
  show ?case
  proof (cases "step c a s")
    case None
    with Cons show ?thesis by simp
  next
    case (Some x)
    obtain e s' where x: "x = (e, s')" by (cases x)
    with Some step_yields [of c a s e s'] Cons [of s'] show ?thesis by simp
  qed
qed

lemma sched_once: "count_list (body k) Sched_call = 1 \<and> last (body k) = Sched_call"
  by (cases k) (simp_all add: dr_def ur_def dw_def uw_def dgw_def sched_def)

text \<open>
  Claim C8. \<^verbatim>\<open>sched\<close> calls \<^verbatim>\<open>schedule()\<close> when \<open>do_sched\<close> is not 0 and does nothing
  otherwise; it is the last statement of each of the three loop bodies and occurs there
  once, so a thread yields once after each complete turn of its loop when the flag is set:
  in every run the number of yields is the number of executed \<^verbatim>\<open>sched\<close> calls, and 0
  when the flag is clear. The yield has no other effect: two runs of the same schedule
  whose parameters differ in \<open>do_sched\<close> only take the same steps and end in states that
  differ in the count of yields only.
\<close>

theorem yield_toggle:
  "sched_call c s = (if do_sched c \<noteq> 0 then s\<lparr>yields := Suc (yields s)\<rparr> else s)
   \<and> count_list (body k) Sched_call = 1 \<and> last (body k) = Sched_call
   \<and> yields (run c as init_state) =
       (if do_sched c \<noteq> 0
        then length (filter (\<lambda>x. snd x = Exec Sched_call) (trace c as init_state)) else 0)
   \<and> (no_sched c' = no_sched c \<longrightarrow>
        trace c' as s = trace c as s \<and> erase (run c' as s) = erase (run c as s))"
proof -
  have "trace c' as s = trace c as s \<and> erase (run c' as s) = erase (run c as s)"
    if "no_sched c' = no_sched c"
    using run_erase [of c as s] run_erase [of c' as s] that by simp
  with run_yields [of c as init_state] sched_once [of k] show ?thesis
    by (simp add: sched_call_def schedule_def init_state_def)
qed

lemma demo_run_sched: "run sched_config demo_schedule init_state = demo_final_sched"
  by (simp add: demo_schedule_def demo_final_def demo_final_sched_def sched_config_def
        default_config_def init_state_def ENOANO_def model_defs replicate_numeral)

text \<open>The default run with and without the flag: four turns of a loop, four yields.\<close>

theorem yield_toggle_witness:
  "no_sched sched_config = no_sched default_config
   \<and> do_sched sched_config \<noteq> 0 \<and> do_sched default_config = 0
   \<and> yields (run sched_config demo_schedule init_state) = 4
   \<and> yields (run default_config demo_schedule init_state) = 0
   \<and> run sched_config demo_schedule init_state
       = (run default_config demo_schedule init_state)\<lparr>yields := 4\<rparr>
   \<and> length (filter (\<lambda>x. snd x = Exec Sched_call) (trace default_config demo_schedule init_state)) = 4"
proof -
  have ns: "no_sched sched_config = no_sched default_config"
    and ds: "do_sched sched_config \<noteq> 0" "do_sched default_config = 0"
    by (simp_all add: sched_config_def no_sched_def default_config_def)
  note t = yield_toggle [of sched_config init_state Reader demo_schedule default_config]
  from t ns have tr: "trace default_config demo_schedule init_state
      = trace sched_config demo_schedule init_state"
    by simp
  from t ds have "yields (run sched_config demo_schedule init_state)
      = length (filter (\<lambda>x. snd x = Exec Sched_call) (trace sched_config demo_schedule init_state))"
    by simp
  then have cnt: "length (filter (\<lambda>x. snd x = Exec Sched_call)
      (trace default_config demo_schedule init_state)) = 4"
    by (simp add: tr demo_run_sched demo_final_sched_def)
  have "yields demo_final = 0" by (simp add: demo_final_def)
  with ns ds cnt show ?thesis
    by (simp add: demo_run demo_run_sched demo_final_sched_def)
qed

section \<open>Downgrading\<close>

lemma demo_dgw_run: "run default_config demo_dgw_schedule init_state = demo_dgw"
  by (simp add: demo_dgw_schedule_def demo_dgw_def default_config_def init_state_def
        model_defs replicate_numeral)

lemma demo_dgw_reachable: "reachable default_config demo_dgw"
  using reachable_run [OF reachable_init, of default_config demo_dgw_schedule]
  by (simp add: demo_dgw_run)

text \<open>What a downgrader holds and counts for at each statement of \<^verbatim>\<open>dgw\<close> (position 6 is
  the statement after it).\<close>

lemma local_in_dgw:
  assumes "in_dgw t j"
  shows "local_of t =
    (if j \<le> 2 then (Wr, 0, 1) else if j = 3 then (Wr, 0, 0) else if j = 4 then (Wr, 1, 0)
     else (Rd, 1, 0))"
proof -
  from assms have "j = 0 \<or> j = 1 \<or> j = 2 \<or> j = 3 \<or> j = 4 \<or> j = 5 \<or> j = 6"
    by (auto simp: in_dgw_def dgw_def)
  with assms show ?thesis
    by (auto simp: in_dgw_def local_of_def done_instrs_def dw_def dgw_def ur_def sched_def)
qed

lemma tally_le_length:
  assumes "\<And>t. f t \<le> 1"
  shows "tally f s \<le> int (length (threads s))"
proof -
  have "sum_list (map f ts) \<le> int (length ts)" for ts
  proof (induction ts)
    case Nil
    show ?case by simp
  next
    case (Cons t ts)
    with assms [of t] show ?case by simp
  qed
  then show ?thesis by (simp add: tally_def)
qed

lemma threads_le_60: "reachable c s \<Longrightarrow> length (threads s) \<le> 60"
proof -
  assume "reachable c s"
  note sp = spawn_inv_reachable [OF this]
  then have "length (threads s) = length (spawned c (progress (mpc s)))"
    by (metis spawn_inv_def length_map)
  also have "\<dots> \<le> 3 * progress (mpc s)" by (rule spawned_length)
  also have "\<dots> \<le> 60" using progress_le_20 [OF sp] by simp
  finally show ?thesis .
qed

lemma readers_exact:
  assumes "reachable c s"
  shows "uint (readers s) = tally shareR s" and "uint (writers s) = tally shareW s"
proof -
  note tb = tally_bounds [of s]
  have "tally holdsR s + tally holdsW s \<le> int (length (threads s))"
    unfolding tally_add [symmetric] by (rule tally_le_length) (rule thread_bounds)
  with threads_le_60 [OF assms] tb have b: "tally shareR s \<le> 60" "tally shareW s \<le> 60"
    by linarith+
  from lock_inv_reachable [OF assms] have "readers s = word_of_int (tally shareR s)"
    "writers s = word_of_int (tally shareW s)"
    by (simp_all add: lock_inv_def)
  with b tb show "uint (readers s) = tally shareR s" and "uint (writers s) = tally shareW s"
    by (simp_all add: uint_word_of_int)
qed


lemma tally_others:
  assumes f: "\<And>t. 0 \<le> f t" and z: "f \<lparr>kind = Reader, arg = 0, pc = Head\<rparr> = 0"
    and i: "i < length (threads s)" and i': "i' < length (threads s)" and ne: "i' \<noteq> i"
  shows "f (threads s ! i) + f (threads s ! i') \<le> tally f s"
proof -
  define t0 where "t0 = \<lparr>kind = Reader, arg = 0, pc = Head\<rparr>"
  define s0 where "s0 = s\<lparr>threads := (threads s)[i := t0]\<rparr>"
  have "f (threads s0 ! i') \<le> tally f s0"
    by (rule tally_member [OF f]) (simp add: s0_def i')
  moreover have "threads s0 ! i' = threads s ! i'" using ne by (simp add: s0_def)
  moreover have "tally f s0 = tally f s - f (threads s ! i) + f t0"
    using i by (simp add: s0_def tally_def sum_list_map_update)
  ultimately show ?thesis using z by (simp add: t0_def)
qed

lemma holds_cases: "holdsR t = (if holds t = Rd then 1 else 0)" "holdsW t = (if holds t = Wr then 1 else 0)"
  by (simp_all add: holdsR_def holdsW_def)

text \<open>While a thread holds the semaphore for writing, no other thread holds it.\<close>

lemma writer_alone:
  assumes r: "reachable c s" and i: "i < length (threads s)" and w: "holds (threads s ! i) = Wr"
    and i': "i' < length (threads s)" and ne: "i' \<noteq> i"
  shows "holds (threads s ! i') = Free"
proof -
  note inv = lock_inv_reachable [OF r]
  have "holdsW (threads s ! i) \<le> tally holdsW s"
    by (rule tally_member [OF _ i]) (rule thread_bounds)
  with w inv have t: "tally holdsW s = 1" "tally holdsR s = 0"
    by (auto simp: lock_inv_def holds_cases)
  have "holdsR (threads s ! i') \<le> tally holdsR s"
    by (rule tally_member [OF _ i']) (rule thread_bounds)
  moreover have "holdsW (threads s ! i) + holdsW (threads s ! i') \<le> tally holdsW s"
    by (rule tally_others [OF _ _ i i' ne]) (simp_all add: thread_bounds flags_start)
  ultimately show ?thesis using t w
    by (cases "holds (threads s ! i')") (simp_all add: holds_cases)
qed

lemma tally_single:
  assumes i: "i < length (threads s)"
    and z: "\<And>i'. i' < length (threads s) \<Longrightarrow> i' \<noteq> i \<Longrightarrow> f (threads s ! i') = 0"
  shows "tally f s = f (threads s ! i)"
proof -
  have "sum_list (map f ts) = f (ts ! i)"
    if "i < length ts" "\<And>i'. i' < length ts \<Longrightarrow> i' \<noteq> i \<Longrightarrow> f (ts ! i') = 0" for ts
    using that
  proof (induction ts arbitrary: i)
    case Nil
    then show ?case by simp
  next
    case (Cons t ts)
    show ?case
    proof (cases i)
      case 0
      have "f x = 0" if "x \<in> set ts" for x
      proof -
        from that obtain n where "n < length ts" "ts ! n = x" by (auto simp: in_set_conv_nth)
        with Cons.prems(2) [of "Suc n"] 0 show ?thesis by simp
      qed
      then have "sum_list (map f ts) = 0" by (induction ts) simp_all
      with 0 show ?thesis by simp
    next
      case (Suc n)
      with Cons.prems(2) [of 0] have "f t = 0" by simp
      moreover have "sum_list (map f ts) = f (ts ! n)"
      proof (rule Cons.IH)
        show "n < length ts" using Cons.prems(1) Suc by simp
        fix i' assume "i' < length ts" "i' \<noteq> n"
        with Cons.prems(2) [of "Suc i'"] Suc show "f (ts ! i') = 0" by simp
      qed
      ultimately show ?thesis using Suc by simp
    qed
  qed
  with assms show ?thesis by (simp add: tally_def)
qed

lemma free_flags:
  assumes "holds t = Free"
  shows "holdsR t = 0" "holdsW t = 0" "shareR t = 0" "shareW t = 0"
proof -
  show "holdsR t = 0" "holdsW t = 0" using assms by (simp_all add: holds_cases)
  with thread_bounds [of t] show "shareR t = 0" "shareW t = 0" by linarith+
qed

lemma checka_needs_hold:
  assumes "pc t = Body k" and "k < length (body (kind t))" and "body (kind t) ! k = Checka f v val"
  shows "holds t \<noteq> Free"
proof -
  obtain h r w where l: "local_of t = (h, r, w)" by (cases "local_of t")
  with local_of_exec(1) [OF assms(1,2)] assms(3) have "h \<noteq> Free"
    by (auto split: if_splits)
  with l show ?thesis by (simp add: holds_def)
qed


text \<open>
  Claim C2. Take any reachable state in which a downgrader stands inside \<^verbatim>\<open>dgw\<close>, before
  its statement \<open>j\<close> (0 to 5), or has just finished it (\<open>j = 6\<close>). The semaphore is not
  free and \<^verbatim>\<open>down_write\<close> blocks, so no writer gets in. Up to the call of
  \<^verbatim>\<open>downgrade_write\<close> (\<open>j \<le> 4\<close>) the semaphore is write-held, \<^verbatim>\<open>down_read\<close> blocks as
  well, no other thread holds the semaphore or stands at a \<^verbatim>\<open>CHECKA\<close>, and the counters
  go from \<open>writers = 1, readers = 0\<close> over \<open>0, 0\<close> (seen by nobody: the semaphore is still
  held for writing) to \<open>writers = 0, readers = 1\<close>. The call itself takes the semaphore
  from \<open>-1\<close> to \<open>1\<close> in one step. After it the thread holds the semaphore as a reader, is
  counted in \<open>readers\<close>, \<open>writers\<close> is 0, and any other holder is a reader.
\<close>

theorem downgrade_atomic:
  assumes r: "reachable c s" and i: "i < length (threads s)" and d: "in_dgw (threads s ! i) j"
  shows "activity s \<noteq> 0 \<and> down_write s = None
    \<and> (j \<le> 4 \<longrightarrow> activity s = - 1 \<and> down_read s = None \<and> holds (threads s ! i) = Wr
          \<and> writers s = (if j \<le> 2 then 1 else 0) \<and> readers s = (if j = 4 then 1 else 0)
          \<and> (\<forall>i'. i' < length (threads s) \<and> i' \<noteq> i \<longrightarrow>
                holds (threads s ! i') = Free
                \<and> (\<forall>k. pc (threads s ! i') = Body k \<and> k < length (body (kind (threads s ! i')))
                      \<longrightarrow> (\<forall>f v val. body (kind (threads s ! i')) ! k \<noteq> Checka f v val))))
    \<and> (j = 4 \<longrightarrow> (\<exists>s'. thread_step c i s = Some (Exec Downgrade_write, s')
          \<and> activity s' = 1 \<and> in_dgw (threads s' ! i) 5))
    \<and> (4 < j \<longrightarrow> 1 \<le> activity s \<and> holds (threads s ! i) = Rd \<and> readers s \<noteq> 0
          \<and> writers s = 0
          \<and> (\<forall>i'. i' < length (threads s) \<longrightarrow> holds (threads s ! i') \<noteq> Wr))"
proof -
  define t where "t = threads s ! i"
  note inv = lock_inv_reachable [OF r]
  note l = local_in_dgw [OF d, folded t_def]
  have early: "activity s = - 1 \<and> down_read s = None \<and> holds t = Wr
          \<and> writers s = (if j \<le> 2 then 1 else 0) \<and> readers s = (if j = 4 then 1 else 0)
          \<and> (\<forall>i'. i' < length (threads s) \<and> i' \<noteq> i \<longrightarrow>
                holds (threads s ! i') = Free
                \<and> (\<forall>k. pc (threads s ! i') = Body k \<and> k < length (body (kind (threads s ! i')))
                      \<longrightarrow> (\<forall>f v val. body (kind (threads s ! i')) ! k \<noteq> Checka f v val)))"
    if j: "j \<le> 4"
  proof -
    from l j have h: "holds t = Wr" by (simp add: holds_def)
    have others: "holds (threads s ! i') = Free" if "i' < length (threads s)" "i' \<noteq> i" for i'
      using writer_alone [OF r i h [unfolded t_def] that] .
    have single: "tally f s = f t" if "\<And>t. holds t = Free \<Longrightarrow> f t = 0" for f
      unfolding t_def by (rule tally_single [OF i]) (simp add: that others)
    from l j have fl: "holdsW t = 1" "holdsR t = 0" "shareW t = (if j \<le> 2 then 1 else 0)"
      "shareR t = (if j = 4 then 1 else 0)"
      by (auto simp: holdsW_def holdsR_def holds_def shareW_def shareR_def)
    have tl: "tally holdsW s = 1" "tally holdsR s = 0" "tally shareW s = (if j \<le> 2 then 1 else 0)"
      "tally shareR s = (if j = 4 then 1 else 0)"
      by (simp_all add: single free_flags fl)
    with inv have "activity s = - 1" "writers s = (if j \<le> 2 then 1 else 0)"
      "readers s = (if j = 4 then 1 else 0)"
      by (simp_all add: lock_inv_def)
    moreover from this(1) have "down_read s = None" by (simp add: down_read_def)
    moreover have "body (kind (threads s ! i')) ! k \<noteq> Checka f v val"
      if "i' < length (threads s)" "i' \<noteq> i" "pc (threads s ! i') = Body k"
        "k < length (body (kind (threads s ! i')))" for i' k f v val
      using checka_needs_hold [OF that(3,4)] others [OF that(1,2)] by auto
    ultimately show ?thesis using h others by blast
  qed
  have late: "1 \<le> activity s \<and> holds t = Rd \<and> readers s \<noteq> 0 \<and> writers s = 0
          \<and> (\<forall>i'. i' < length (threads s) \<longrightarrow> holds (threads s ! i') \<noteq> Wr)"
    if j: "4 < j"
  proof -
    from l j have h: "holds t = Rd" and sr: "shareR t = 1" by (simp_all add: holds_def shareR_def)
    have "holdsR t \<le> tally holdsR s" "shareR t \<le> tally shareR s"
      unfolding t_def by (rule tally_member [OF _ i], rule thread_bounds)+
    with h sr have m: "1 \<le> tally holdsR s" "1 \<le> tally shareR s" by (simp_all add: holds_cases)
    with inv have a: "tally holdsW s = 0" "activity s = tally holdsR s" by (auto simp: lock_inv_def)
    with tally_bounds [of s] have "tally shareW s = 0" by linarith
    with inv have w: "writers s = 0" by (simp add: lock_inv_def)
    from readers_exact(1) [OF r] m have rd: "readers s \<noteq> 0" by auto
    have "holds (threads s ! i') \<noteq> Wr" if "i' < length (threads s)" for i'
    proof -
      have "holdsW (threads s ! i') \<le> tally holdsW s"
        by (rule tally_member [OF _ that]) (rule thread_bounds)
      with a show ?thesis by (simp add: holds_cases split: if_splits)
    qed
    with a m h w rd show ?thesis by simp
  qed
  have step: "\<exists>s'. thread_step c i s = Some (Exec Downgrade_write, s')
          \<and> activity s' = 1 \<and> in_dgw (threads s' ! i) 5"
    if "j = 4"
    using that d i
    by (simp add: thread_step_def in_dgw_def dw_def dgw_def ur_def sched_def downgrade_write_def)
  have "activity s \<noteq> 0"
    using early late by (cases "j \<le> 4") auto
  then have "down_write s = None" by (simp add: down_write_def)
  with \<open>activity s \<noteq> 0\<close> early late step show ?thesis unfolding t_def by blast
qed

text \<open>In the default run: the downgrader has written \<open>writers = 0\<close> and \<open>readers = 1\<close> and
  stands before \<^verbatim>\<open>downgrade_write\<close>; the reader and the writer wait outside.\<close>

theorem downgrade_atomic_witness:
  "reachable default_config demo_dgw \<and> 2 < length (threads demo_dgw)
   \<and> in_dgw (threads demo_dgw ! 2) 4
   \<and> activity demo_dgw = - 1 \<and> writers demo_dgw = 0 \<and> readers demo_dgw = 1
   \<and> thread_step default_config 0 demo_dgw = None
   \<and> thread_step default_config 1 demo_dgw = None
   \<and> map_option (activity \<circ> snd) (thread_step default_config 2 demo_dgw) = Some 1"
  using downgrade_atomic [OF demo_dgw_reachable, of 2 4] demo_dgw_reachable
  by (auto simp: demo_dgw_def in_dgw_def dw_def dgw_def dr_def thread_step_def
        down_read_def down_write_def)

section \<open>The loops of the threads\<close>

lemma step_other_thread:
  assumes "step c a s = Some (e, s')" and "a \<noteq> Thr i" and "i < length (threads s)"
  shows "threads s' ! i = threads s ! i \<and> i < length (threads s')"
  using assms(1)
proof (cases rule: stepE)
  case main
  show ?thesis
  proof (cases "mpc s")
    case (M_spawn l)
    from spawn_iter_threads obtain new where "threads (spawn_iter c l s) = threads s @ new" by blast
    with main(3) M_spawn assms(3) show ?thesis
      by (auto simp: rwsem_init_module_def nth_append split: if_splits)
  qed (use main(3) in \<open>auto simp: rwsem_init_module_def printk_def init_rwsem_def assms(3)
        split: if_splits dest: join_step_frame\<close>)
next
  case timer
  then show ?thesis by (auto simp: timer_step_def stop_test_def assms(3) split: if_splits)
next
  case (thread j)
  with assms(2) have "j \<noteq> i" by simp
  from thread(2) show ?thesis
  proof (cases rule: thread_step_effect)
    case (1 p)
    with \<open>j \<noteq> i\<close> assms(3) show ?thesis by simp
  qed
qed

lemma thread_step_rest:
  assumes "thread_step c i s = Some (e, s')"
  shows "\<exists>m. rest (threads s ! i) m = e # rest (threads s' ! i) n"
  using assms
proof (cases rule: thread_stepE)
  case go
  then show ?thesis
    by (intro exI [of _ "Suc n"]) (simp add: rest_def turn_def)
next
  case stop
  then show ?thesis
    by (intro exI [of _ 0]) (simp add: rest_def finale_def)
next
  case (exec k s1)
  from exec_instr_frame(1) [OF exec(4)] have ts: "threads s1 = threads s" .
  let ?b = "body (kind (threads s ! i))"
  from exec(3) have dr: "drop k ?b = ?b ! k # drop (Suc k) ?b"
    by (simp add: Cons_nth_drop_Suc)
  show ?thesis
  proof (cases "Suc k < length ?b")
    case True
    with exec ts dr show ?thesis by (intro exI [of _ n]) (simp add: rest_def)
  next
    case False
    with exec ts dr show ?thesis by (intro exI [of _ n]) (simp add: rest_def)
  qed
next
  case print
  then show ?thesis by (intro exI [of _ n]) (simp add: rest_def printk_def)
next
  case complete
  then show ?thesis by (intro exI [of _ n]) (simp add: rest_def)
qed

lemma trace_follows_rest:
  assumes "i < length (threads s)"
  shows "\<exists>n. prefix (events_of i (trace c as s)) (rest (threads s ! i) n)"
  using assms
proof (induction as arbitrary: s)
  case Nil
  show ?case by (simp add: events_of_def)
next
  case (Cons a as)
  show ?case
  proof (cases "step c a s")
    case None
    with Cons show ?thesis by simp
  next
    case (Some x)
    obtain e s' where x: "x = (e, s')" by (cases x)
    show ?thesis
    proof (cases "a = Thr i")
      case True
      with Some x have st: "thread_step c i s = Some (e, s')" by (simp add: step_def)
      from st have len: "i < length (threads s')" by (cases rule: thread_step_effect) simp
      from Cons.IH [OF len] obtain n
        where n: "prefix (events_of i (trace c as s')) (rest (threads s' ! i) n)" by blast
      from thread_step_rest [OF st, of n] obtain m
        where "rest (threads s ! i) m = e # rest (threads s' ! i) n" by blast
      with n Some x True show ?thesis
        by (intro exI [of _ m]) (simp add: events_of_def)
    next
      case False
      from step_other_thread [OF _ False Cons.prems, of c e s'] Some x
      have "threads s' ! i = threads s ! i" "i < length (threads s')" by simp_all
      with Cons.IH [of s'] Some x False show ?thesis by (simp add: events_of_def)
    qed
  qed
qed


lemma step_keeps_thread:
  assumes "step c a s = Some (e, s')" and "i < length (threads s)"
  shows "i < length (threads s') \<and> kind (threads s' ! i) = kind (threads s ! i)"
proof (cases "a = Thr i")
  case True
  with assms(1) have "thread_step c i s = Some (e, s')" by (simp add: step_def)
  then show ?thesis by (cases rule: thread_step_effect) simp
next
  case False
  from step_other_thread [OF assms(1) False assms(2)] show ?thesis by simp
qed

lemma run_keeps_thread:
  "i < length (threads s) \<Longrightarrow>
     i < length (threads (run c as s)) \<and> kind (threads (run c as s) ! i) = kind (threads s ! i)"
proof (induction as arbitrary: s)
  case Nil
  then show ?case by simp
next
  case (Cons a as)
  show ?case
  proof (cases "step c a s")
    case None
    with Cons show ?thesis by simp
  next
    case (Some x)
    obtain e s' where x: "x = (e, s')" by (cases x)
    from step_keeps_thread [OF _ Cons.prems, of c a e s'] Some x
    have "i < length (threads s')" "kind (threads s' ! i) = kind (threads s ! i)" by simp_all
    with Cons.IH [of s'] Some x show ?thesis by simp
  qed
qed

lemma spawn_iter_new_threads:
  "\<exists>new. threads (spawn_iter c l s) = threads s @ new \<and> (\<forall>t \<in> set new. pc t = Head)"
  by (simp add: spawn_iter_def spawn_if_def kernel_thread_def init_completion_def)

lemma step_new_thread:
  assumes "step c a s = Some (e, s')" and "\<not> i < length (threads s)" and "i < length (threads s')"
  shows "pc (threads s' ! i) = Head \<and> a \<noteq> Thr i"
  using assms(1)
proof (cases rule: stepE)
  case main
  show ?thesis
  proof (cases "mpc s")
    case (M_spawn l)
    from spawn_iter_new_threads obtain new
      where new: "threads (spawn_iter c l s) = threads s @ new" "\<forall>t \<in> set new. pc t = Head"
      by blast
    with main M_spawn assms(2,3) show ?thesis
      by (auto simp: rwsem_init_module_def nth_append split: if_splits)
  qed (use main assms(2,3) in \<open>auto simp: rwsem_init_module_def printk_def init_rwsem_def
        split: if_splits dest: join_step_frame\<close>)
next
  case timer
  with assms(2,3) show ?thesis by (auto simp: timer_step_def stop_test_def split: if_splits)
next
  case (thread j)
  from thread(2) assms(2,3) show ?thesis by (cases rule: thread_step_effect) simp
qed

lemma trace_shape:
  "(i < length (threads (run c as s)) \<longrightarrow>
      (\<exists>n. prefix (events_of i (trace c as s))
         (if i < length (threads s) then rest (threads s ! i) n
          else concat (replicate n (turn (kind (threads (run c as s) ! i)))) @ finale)))
   \<and> (\<not> i < length (threads (run c as s)) \<longrightarrow> events_of i (trace c as s) = [])"
proof (induction as arbitrary: s)
  case Nil
  show ?case by (simp add: events_of_def)
next
  case (Cons a as)
  show ?case
  proof (cases "i < length (threads s)")
    case True
    with trace_follows_rest [OF True, of c "a # as"] run_keeps_thread [OF True, of c "a # as"]
    show ?thesis by simp
  next
    case False
    show ?thesis
    proof (cases "step c a s")
      case None
      with Cons [of s] False show ?thesis by simp
    next
      case (Some x)
      obtain e s' where x: "x = (e, s')" by (cases x)
      with Some have st: "step c a s = Some (e, s')" by simp
      have na: "a \<noteq> Thr i" using st False by (auto simp: step_def thread_step_def)
      then have ev: "events_of i (trace c (a # as) s) = events_of i (trace c as s')"
        using st by (simp add: events_of_def)
      have rn: "run c (a # as) s = run c as s'" using st by simp
      show ?thesis
      proof (cases "i < length (threads s')")
        case True
        from step_new_thread [OF st False True] have h: "pc (threads s' ! i) = Head" by simp
        from run_keeps_thread [OF True, of c as]
        have k: "kind (threads (run c as s') ! i) = kind (threads s' ! i)"
          and l: "i < length (threads (run c as s'))" by simp_all
        from trace_follows_rest [OF True, of c as] obtain n
          where "prefix (events_of i (trace c as s')) (rest (threads s' ! i) n)" by blast
        with h k l False show ?thesis
          unfolding ev rn by (auto simp: rest_def intro: exI [of _ n])
      next
        case F: False
        with Cons [of s'] False show ?thesis unfolding ev rn by simp
      qed
    qed
  qed
qed

text \<open>
  Claim C5. In every run, what a thread has done is a beginning of: some number of turns
  of its loop, each the test of \<open>do_stuff\<close> found set followed by every statement of the
  body in order, then the test found clear, the \<^verbatim>\<open>printk\<close> and \<^verbatim>\<open>complete_and_exit\<close>.
  The body is \<^verbatim>\<open>dr(); ur(); sched();\<close> for a reader, \<^verbatim>\<open>dw(); uw(); sched();\<close> for a writer
  and \<^verbatim>\<open>dw(); dgw(); ur(); sched();\<close> for a downgrader, so that the semaphore calls of one
  turn are \<^verbatim>\<open>down_read, up_read\<close>, or \<^verbatim>\<open>down_write, up_write\<close>, or
  \<^verbatim>\<open>down_write, downgrade_write, up_read\<close>. The test reports the value of \<open>do_stuff\<close> at
  the moment it is made, and a thread that does not exist does nothing.
\<close>

theorem thread_loop_structure:
  "(i < length (threads (run c as init_state)) \<longrightarrow>
      (\<exists>n. prefix (events_of i (trace c as init_state))
         (concat (replicate n (turn (kind (threads (run c as init_state) ! i)))) @ finale)))
   \<and> (\<not> i < length (threads (run c as init_state)) \<longrightarrow> events_of i (trace c as init_state) = [])
   \<and> turn k = Test True # map Exec (body k)
   \<and> body Reader = dr @ ur @ sched \<and> body Writer = dw @ uw @ sched
   \<and> body Downgrader = dw @ dgw @ ur @ sched
   \<and> filter is_sem_call (body Reader) = [Down_read, Up_read]
   \<and> filter is_sem_call (body Writer) = [Down_write, Up_write]
   \<and> filter is_sem_call (body Downgrader) = [Down_write, Downgrade_write, Up_read]
   \<and> (thread_step c i s = Some (Test b, s') \<longrightarrow> (b \<longleftrightarrow> atomic_read Do_stuff s \<noteq> 0))"
proof -
  have "thread_step c i s = Some (Test b, s') \<Longrightarrow> (b \<longleftrightarrow> atomic_read Do_stuff s \<noteq> 0)"
    by (erule thread_stepE) auto
  with trace_shape [of i c as init_state] show ?thesis
    by (simp add: init_state_def turn_def dr_def ur_def dw_def uw_def dgw_def sched_def)
qed


lemma demo_trace_reader:
  "events_of 0 (trace default_config demo_schedule init_state) = turn Reader @ turn Reader @ finale"
  by (simp add: demo_schedule_def default_config_def init_state_def events_of_def turn_def
        finale_def model_defs replicate_numeral)

text \<open>The reader of the default run: two turns, then the exit.\<close>

theorem thread_loop_structure_witness:
  "0 < length (threads (run default_config demo_schedule init_state))
   \<and> kind (threads (run default_config demo_schedule init_state) ! 0) = Reader
   \<and> events_of 0 (trace default_config demo_schedule init_state)
       = concat (replicate 2 (turn Reader)) @ finale
   \<and> prefix (events_of 0 (trace default_config demo_schedule init_state))
       (concat (replicate 2 (turn Reader)) @ finale)
   \<and> thread_step default_config 0 demo_final = None"
  using thread_loop_structure [of 0 default_config demo_schedule Reader demo_final True demo_final]
  by (simp add: demo_run demo_trace_reader numeral_2_eq_2)
    (simp add: demo_final_def thread_step_def)

section \<open>The counters of acquisitions\<close>

lemma run_append: "run c (as @ bs) s = run c bs (run c as s)"
  by (induction as arbitrary: s) (auto split: option.splits)

lemma trace_append: "trace c (as @ bs) s = trace c as s @ trace c bs (run c as s)"
  by (induction as arbitrary: s) (auto split: option.splits)

lemma occurrences_append [simp]:
  "occurrences ins (xs @ ys) = occurrences ins xs + occurrences ins ys"
  by (simp add: occurrences_def)

lemma occurrences_Cons [simp]:
  "occurrences ins (x # xs) = (if snd x = Exec ins then 1 else 0) + occurrences ins xs"
  by (simp add: occurrences_def)

lemma occurrences_Nil [simp]: "occurrences ins [] = 0"
  by (simp add: occurrences_def)

lemma body_no_dec_taken: "taken v \<Longrightarrow> Atomic_dec v \<notin> set (body k)"
  by (cases k) (auto simp: taken_def dr_def ur_def dw_def uw_def dgw_def sched_def)

lemma atomic_read_update [simp]:
  "atomic_read v (s\<lparr>activity := a\<rparr>) = atomic_read v s"
  "atomic_read v (s\<lparr>klog := ms\<rparr>) = atomic_read v s"
  "atomic_read v (s\<lparr>yields := y\<rparr>) = atomic_read v s"
  "atomic_read v (s\<lparr>threads := ts\<rparr>) = atomic_read v s"
  "atomic_read v (s\<lparr>mpc := p\<rparr>) = atomic_read v s"
  "atomic_read v (s\<lparr>timer_pending := b\<rparr>) = atomic_read v s"
  by (cases v, simp_all)+

lemma atomic_read_inc_dec:
  "atomic_read v (atomic_inc v' s) = (if v = v' then atomic_read v s + 1 else atomic_read v s)"
  "atomic_read v (atomic_dec v' s) = (if v = v' then atomic_read v s - 1 else atomic_read v s)"
  by (simp_all add: atomic_inc_def atomic_dec_def atomic_read_set)

lemma exec_instr_taken:
  assumes "exec_instr c ins s = Some s'" and "ins \<noteq> Atomic_dec v"
  shows "atomic_read v s' = atomic_read v s + (if ins = Atomic_inc v then 1 else 0)"
  using assms
  by (cases ins)
    (auto simp: atomic_read_inc_dec checka_def printk_def sched_call_def schedule_def sem_defs
      Let_def split: if_splits)

lemma step_taken:
  assumes "step c a s = Some (e, s')" and "taken v"
  shows "atomic_read v s' = atomic_read v s + (if e = Exec (Atomic_inc v) then 1 else 0)"
  using assms(1)
proof (cases rule: stepE)
  case main
  with assms(2) show ?thesis
    by (cases "mpc s")
      (auto simp: rwsem_init_module_def printk_def init_rwsem_def join_step_def taken_def
        wait_for_completion_def split: if_splits)
next
  case timer
  with assms(2) show ?thesis
    by (auto simp: timer_step_def stop_test_def taken_def split: if_splits)
next
  case (thread i)
  from thread(2) show ?thesis
  proof (cases rule: thread_stepE)
    case (exec k s1)
    from exec(3) body_no_dec_taken [OF assms(2)]
    have "body (kind (threads s ! i)) ! k \<noteq> Atomic_dec v" by (metis nth_mem)
    from exec_instr_taken [OF exec(4) this] exec(5,6) show ?thesis by simp
  next
    case complete
    have "atomic_read v (complete k n s) = atomic_read v s" for k n
      by (simp add: complete_def)
    with complete show ?thesis by simp
  qed (simp_all add: printk_def)
qed

lemma run_taken:
  "taken v \<Longrightarrow>
     atomic_read v (run c as s) = atomic_read v s + of_nat (occurrences (Atomic_inc v) (trace c as s))"
proof (induction as arbitrary: s)
  case Nil
  show ?case by simp
next
  case (Cons a as)
  show ?case
  proof (cases "step c a s")
    case None
    with Cons show ?thesis by simp
  next
    case (Some x)
    obtain e s' where x: "x = (e, s')" by (cases x)
    with Some step_taken [of c a s e s' v] Cons.IH [of s'] Cons.prems show ?thesis by simp
  qed
qed


lemma body_balanced: "taken v \<Longrightarrow> count_list (body k) (Atomic_inc v) = count_list (body k) (fin v)"
  by (cases k; cases v) (simp_all add: taken_def fin_def dr_def ur_def dw_def uw_def dgw_def sched_def)

lemma pending_outside [simp]: "\<forall>k. pc t \<noteq> Body (Suc k) \<Longrightarrow> pending v t = 0"
proof (cases "pc t")
  case (Body k)
  assume "\<forall>k. pc t \<noteq> Body (Suc k)"
  with Body have "k = 0" by (cases k) simp_all
  with Body show ?thesis by (simp add: pending_def done_instrs_def)
qed (simp_all add: pending_def done_instrs_def)

lemma pending_exec:
  assumes "pc t = Body k" and "k < length (body (kind t))" and "taken v"
  shows "pending v (t\<lparr>pc := if Suc k < length (body (kind t)) then Body (Suc k) else Head\<rparr>)
    = pending v t + (if body (kind t) ! k = Atomic_inc v then 1 else 0)
        - (if body (kind t) ! k = fin v then 1 else 0)"
proof (cases "Suc k < length (body (kind t))")
  case True
  with assms show ?thesis
    by (simp add: pending_def done_instrs_def take_Suc_conv_app_nth)
next
  case False
  with assms(2) have eq: "take k (body (kind t)) @ [body (kind t) ! k] = body (kind t)"
    by (simp add: take_Suc_conv_app_nth [symmetric])
  have "count_list (take k (body (kind t)) @ [body (kind t) ! k]) x
      = count_list (take k (body (kind t))) x + (if body (kind t) ! k = x then 1 else 0)" for x
    by simp
  then have "count_list (body (kind t)) x
      = count_list (take k (body (kind t))) x + (if body (kind t) ! k = x then 1 else 0)" for x
    unfolding eq .
  with body_balanced [OF assms(3), of "kind t"] False assms(1) show ?thesis
    by (simp add: pending_def done_instrs_def split: if_splits)
qed

lemma step_pending:
  assumes "step c a s = Some (e, s')" and "taken v"
  shows "tally (pending v) s' = tally (pending v) s
    + (if e = Exec (Atomic_inc v) then 1 else 0) - (if e = Exec (fin v) then 1 else 0)"
  using assms(1)
proof (cases rule: stepE)
  case main
  show ?thesis
  proof (cases "mpc s")
    case (M_spawn l)
    have "tally (pending v) (spawn_iter c l s) = tally (pending v) s"
      by (rule tally_spawn_iter) simp
    with main M_spawn show ?thesis
      by (auto simp: rwsem_init_module_def split: if_splits)
  qed (use main in \<open>auto simp: rwsem_init_module_def printk_def init_rwsem_def tally_def
        split: if_splits dest: join_step_frame\<close>)
next
  case timer
  then show ?thesis by (auto simp: timer_step_def stop_test_def tally_def split: if_splits)
next
  case (thread i)
  from thread(2) show ?thesis
  proof (cases rule: thread_stepE)
    case (exec k s1)
    from exec_instr_frame(1) [OF exec(4)] have ts: "threads s1 = threads s" .
    then have "tally (pending v) s1 = tally (pending v) s" by (simp add: tally_def)
    with pending_exec [OF exec(2,3) assms(2)] exec(1,5,6) ts show ?thesis
      by (simp add: tally_set_pc)
  qed (simp_all add: tally_set_pc printk_def tally_def [of _ "_\<lparr>klog := _\<rparr>"]
        tally_def [of _ "complete _ _ _"] tally_def [of _ s])
qed


lemma run_pending:
  "taken v \<Longrightarrow>
     int (occurrences (Atomic_inc v) (trace c as s)) + tally (pending v) s
       = int (occurrences (fin v) (trace c as s)) + tally (pending v) (run c as s)"
proof (induction as arbitrary: s)
  case Nil
  show ?case by simp
next
  case (Cons a as)
  show ?case
  proof (cases "step c a s")
    case None
    with Cons show ?thesis by simp
  next
    case (Some x)
    obtain e s' where x: "x = (e, s')" by (cases x)
    with Some step_pending [of c a s e s' v] Cons.IH [of s'] Cons.prems show ?thesis
      by (auto split: if_splits)
  qed
qed

lemma sint_of_nat_32: "n < 2 ^ 31 \<Longrightarrow> sint (of_nat n :: 32 word) = int n"
  by (simp add: signed_of_nat signed_take_bit_int_eq_self)

lemma busy_start: "run config_r (replicate 25 Main) init_state = busy 0 Head"
  by (simp add: config_r_def init_state_def busy_def model_defs replicate_numeral)

lemma busy_turn:
  "run config_r reader_turn (busy w Head) = busy (w + 1) Head"
  "occurrences (fin Reads_taken) (trace config_r reader_turn (busy w Head)) = 1"
  by (simp_all add: config_r_def busy_def reader_turn_def fin_def model_defs replicate_numeral)

lemma busy_turns:
  "run config_r (concat (replicate n reader_turn)) (busy w Head) = busy (w + of_nat n) Head
   \<and> occurrences (fin Reads_taken) (trace config_r (concat (replicate n reader_turn)) (busy w Head)) = n"
  by (induction n arbitrary: w) (simp_all add: run_append trace_append busy_turn add.assoc)


lemma busy_end:
  "run config_r wind_down (busy 2147483648 Head) = wrapped_final"
  "occurrences (fin Reads_taken) (trace config_r wind_down (busy 2147483648 Head)) = 0"
  by (simp_all add: wind_down_def config_r_def busy_def wrapped_final_def fin_def ENOANO_def
        model_defs replicate_numeral)

lemma busy_start_trace:
  "occurrences (fin Reads_taken) (trace config_r (replicate 25 Main) init_state) = 0"
  by (simp add: config_r_def init_state_def fin_def model_defs replicate_numeral)

lemma long_run:
  "run config_r long_schedule init_state = wrapped_final"
  "occurrences (fin Reads_taken) (trace config_r long_schedule init_state) = 2 ^ 31"
proof -
  have w: "(0 :: 32 word) + of_nat (2 ^ 31) = 2147483648" by simp
  from busy_turns [of "2 ^ 31" 0]
  have t: "run config_r (concat (replicate (2 ^ 31) reader_turn)) (busy 0 Head)
      = busy 2147483648 Head"
    "occurrences (fin Reads_taken)
       (trace config_r (concat (replicate (2 ^ 31) reader_turn)) (busy 0 Head)) = 2 ^ 31"
    unfolding w by simp_all
  show "run config_r long_schedule init_state = wrapped_final"
    unfolding long_schedule_def run_append busy_start t(1) by (rule busy_end(1))
  show "occurrences (fin Reads_taken) (trace config_r long_schedule init_state) = 2 ^ 31"
    unfolding long_schedule_def trace_append run_append occurrences_append busy_start t
      busy_start_trace busy_end
    by simp
qed

lemma wrap_step:
  "run config_r before_wrap init_state = inside_dr 2147483647 (Body 2)"
  "run config_r (before_wrap @ [Thr 0]) init_state = inside_dr 2147483648 (Body 3)"
proof -
  have w: "(0 :: 32 word) + of_nat (2 ^ 31 - 1) = 2147483647" by simp
  from busy_turns [of "2 ^ 31 - 1" 0]
  have t: "run config_r (concat (replicate (2 ^ 31 - 1) reader_turn)) (busy 0 Head)
      = busy 2147483647 Head"
    unfolding w by simp
  have a: "run config_r into_dr (busy 2147483647 Head) = inside_dr 2147483647 (Body 2)"
    by (simp add: into_dr_def config_r_def busy_def inside_dr_def model_defs)
  have b: "run config_r [Thr 0] (inside_dr 2147483647 (Body 2)) = inside_dr 2147483648 (Body 3)"
    by (simp add: config_r_def busy_def inside_dr_def model_defs)
  show "run config_r before_wrap init_state = inside_dr 2147483647 (Body 2)"
    unfolding before_wrap_def run_append busy_start t by (rule a)
  then show "run config_r (before_wrap @ [Thr 0]) init_state = inside_dr 2147483648 (Body 3)"
    unfolding run_append by (simp only: b)
qed

text \<open>
  The counters are C \<^verbatim>\<open>int\<close>s of 32 bits. In the run below a single reader completes
  \<open>2 ^ 31\<close> calls of \<^verbatim>\<open>dr\<close>, the test ends and the init function returns;
  \<open>reads_taken\<close>, as the \<^verbatim>\<open>%d\<close> of the report prints it, is \<open>- 2 ^ 31\<close>, and at the step
  that took it there it went down.
\<close>

theorem counter_conservation_counterexample:
  "mpc (run config_r long_schedule init_state) = M_returned (- ENOANO)
   \<and> occurrences (last dr) (trace config_r long_schedule init_state) = 2147483648
   \<and> sint (reads_taken (run config_r long_schedule init_state)) = - 2147483648
   \<and> sint (reads_taken (run config_r (before_wrap @ [Thr 0]) init_state))
       < sint (reads_taken (run config_r before_wrap init_state))"
  using long_run(2)
  by (simp add: long_run(1) wrap_step wrapped_final_def busy_def inside_dr_def ENOANO_def fin_def)


lemma sint_succ_32:
  fixes w :: "32 word"
  assumes "sint w < 2 ^ 31 - 1"
  shows "sint (w + 1) = sint w + 1"
proof -
  have "- (2 ^ 31) \<le> sint w" using sint_ge [of w] by simp
  with assms show ?thesis
    by (simp add: sint_word_add signed_take_bit_int_eq_self)
qed

text \<open>
  Claim C3, with the counters as the 32-bit values they are. \<open>reads_taken\<close>,
  \<open>writes_taken\<close> and \<open>downgrades_taken\<close> are 32-bit counters. A step leaves each of them
  unchanged or, when it is the \<^verbatim>\<open>atomic_inc\<close> of that counter, adds 1 with wrap-around; so
  in every run from the start the counter is the number of its increments modulo
  \<open>2 ^ 32\<close>, and a step does not lower it unless it stands at the largest \<^verbatim>\<open>int\<close>. When
  every thread has exited, and so when the init function has left the join loops, the
  counter is the number of completed calls of \<^verbatim>\<open>dr\<close> (of \<^verbatim>\<open>dw\<close>, of \<^verbatim>\<open>dgw\<close>) modulo
  \<open>2 ^ 32\<close>, and equal to that number when it is below \<open>2 ^ 31\<close>.
\<close>

theorem counter_conservation:
  assumes "taken v"
  shows "(step c a s = Some (e, s') \<longrightarrow>
        atomic_read v s' = atomic_read v s + (if e = Exec (Atomic_inc v) then 1 else 0)
        \<and> (sint (atomic_read v s) < 2 ^ 31 - 1 \<longrightarrow> sint (atomic_read v s) \<le> sint (atomic_read v s')))
    \<and> atomic_read v (run c as init_state) = of_nat (occurrences (Atomic_inc v) (trace c as init_state))
    \<and> (list_all (\<lambda>t. pc t = Exited) (threads (run c as init_state))
          \<or> joined_all (mpc (run c as init_state)) \<longrightarrow>
         atomic_read v (run c as init_state) = of_nat (occurrences (fin v) (trace c as init_state))
         \<and> (occurrences (fin v) (trace c as init_state) < 2 ^ 31 \<longrightarrow>
              sint (atomic_read v (run c as init_state))
                = int (occurrences (fin v) (trace c as init_state))))
    \<and> fin Reads_taken = last dr \<and> fin Writes_taken = last dw \<and> fin Downgrades_taken = last dgw"
proof -
  have st: "atomic_read v s' = atomic_read v s + (if e = Exec (Atomic_inc v) then 1 else 0)
        \<and> (sint (atomic_read v s) < 2 ^ 31 - 1 \<longrightarrow> sint (atomic_read v s) \<le> sint (atomic_read v s'))"
    if "step c a s = Some (e, s')"
    using step_taken [OF that assms] sint_succ_32 [of "atomic_read v s"] by simp
  have "atomic_read v init_state = 0" by (cases v) (simp_all add: init_state_def)
  with run_taken [OF assms, of c as init_state]
  have inc: "atomic_read v (run c as init_state)
      = of_nat (occurrences (Atomic_inc v) (trace c as init_state))"
    by simp
  have after: "atomic_read v (run c as init_state) = of_nat (occurrences (fin v) (trace c as init_state))
         \<and> (occurrences (fin v) (trace c as init_state) < 2 ^ 31 \<longrightarrow>
              sint (atomic_read v (run c as init_state))
                = int (occurrences (fin v) (trace c as init_state)))"
    if j: "list_all (\<lambda>t. pc t = Exited) (threads (run c as init_state))
          \<or> joined_all (mpc (run c as init_state))"
  proof -
    have ex: "pc t = Exited" if "t \<in> set (threads (run c as init_state))" for t
      using j that all_exited [OF reachable_run [OF reachable_init], of c as t]
      by (auto simp: list_all_iff)
    have "tally (pending v) init_state = 0" by (simp add: tally_def init_state_def)
    moreover have "tally (pending v) (run c as init_state) = 0"
      by (rule tally_zero) (simp add: ex)
    ultimately have "occurrences (Atomic_inc v) (trace c as init_state)
        = occurrences (fin v) (trace c as init_state)"
      using run_pending [OF assms, of c as init_state] by simp
    with inc show ?thesis by (simp add: sint_of_nat_32)
  qed
  have names: "fin Reads_taken = last dr \<and> fin Writes_taken = last dw
      \<and> fin Downgrades_taken = last dgw"
    by (simp add: fin_def)
  from st inc after names show ?thesis by blast
qed

lemma demo_trace_counts:
  "occurrences (last dr) (trace default_config demo_schedule init_state) = 2"
  "occurrences (last dw) (trace default_config demo_schedule init_state) = 2"
  "occurrences (last dgw) (trace default_config demo_schedule init_state) = 1"
  by (simp_all add: demo_schedule_def default_config_def init_state_def
        model_defs replicate_numeral)

lemma inc_step:
  "step config_r (Thr 0) (inside_dr 5 (Body 2))
     = Some (Exec (Atomic_inc Reads_taken), inside_dr 6 (Body 3))"
  by (simp add: inside_dr_def busy_def config_r_def model_defs)

text \<open>A step of the reader that increments \<open>reads_taken\<close> from 5 to 6, and the default
  run: two calls of \<^verbatim>\<open>dr\<close> by the reader, one \<^verbatim>\<open>dw\<close> each by the writer and the
  downgrader, one \<^verbatim>\<open>dgw\<close>.\<close>

theorem counter_conservation_witness:
  "taken Reads_taken \<and> taken Writes_taken \<and> taken Downgrades_taken
   \<and> step config_r (Thr 0) (inside_dr 5 (Body 2))
       = Some (Exec (Atomic_inc Reads_taken), inside_dr 6 (Body 3))
   \<and> sint (reads_taken (inside_dr 5 (Body 2))) = 5 \<and> sint (reads_taken (inside_dr 6 (Body 3))) = 6
   \<and> list_all (\<lambda>t. pc t = Exited) (threads (run default_config demo_schedule init_state))
   \<and> joined_all (mpc (run default_config demo_schedule init_state))
   \<and> occurrences (last dr) (trace default_config demo_schedule init_state) = 2
   \<and> sint (reads_taken (run default_config demo_schedule init_state)) = 2
   \<and> occurrences (last dw) (trace default_config demo_schedule init_state) = 2
   \<and> sint (writes_taken (run default_config demo_schedule init_state)) = 2
   \<and> occurrences (last dgw) (trace default_config demo_schedule init_state) = 1
   \<and> sint (downgrades_taken (run default_config demo_schedule init_state)) = 1"
  using counter_conservation [of Reads_taken config_r "Thr 0" "inside_dr 5 (Body 2)"
      "Exec (Atomic_inc Reads_taken)" "inside_dr 6 (Body 3)" "[]"]
    counter_conservation [of Reads_taken default_config Main init_state Main_step init_state demo_schedule]
    counter_conservation [of Writes_taken default_config Main init_state Main_step init_state demo_schedule]
    counter_conservation [of Downgrades_taken default_config Main init_state Main_step init_state demo_schedule]
    inc_step
  by (simp add: taken_def demo_run demo_final_def joined_all_def demo_trace_counts fin_def
        inside_dr_def busy_def)

section \<open>Running to completion\<close>



text \<open>The same in any schedule that gives actor \<open>a\<close> enough turns, when the steps of the
  other actors do no harm.\<close>

lemma run_measure_any:
  assumes st: "\<And>s. P s \<Longrightarrow> (0 < f s \<longrightarrow> step c a s \<noteq> None)
       \<and> (\<forall>e s'. step c a s = Some (e, s') \<longrightarrow> P s' \<and> (f s' < f s \<or> f s' = 0))"
    and other: "\<And>s b e s'. P s \<Longrightarrow> b \<noteq> a \<Longrightarrow> step c b s = Some (e, s') \<Longrightarrow> P s' \<and> f s' \<le> f s"
  shows "P s \<Longrightarrow> f s \<le> count_list bs a \<Longrightarrow> P (run c bs s) \<and> f (run c bs s) = (0 :: nat)"
proof (induction bs arbitrary: s)
  case Nil
  then show ?case by simp
next
  case (Cons b bs)
  show ?case
  proof (cases "step c b s")
    case None
    have "f s \<le> count_list bs a"
    proof (cases "b = a")
      case True
      with None st [OF Cons.prems(1)] show ?thesis by auto
    next
      case False
      with Cons.prems(2) show ?thesis by simp
    qed
    from Cons.IH [OF Cons.prems(1) this] None show ?thesis by simp
  next
    case (Some x)
    obtain e s' where x: "x = (e, s')" by (cases x)
    have "P s' \<and> f s' \<le> count_list bs a"
    proof (cases "b = a")
      case True
      with Some x st [OF Cons.prems(1)] have "P s'" "f s' < f s \<or> f s' = 0" by auto
      with Cons.prems(2) True show ?thesis by auto
    next
      case False
      from other [OF Cons.prems(1) False] Some x have "P s'" "f s' \<le> f s" by auto
      with Cons.prems(2) False show ?thesis by simp
    qed
    then have "P s'" "f s' \<le> count_list bs a" by simp_all
    from Cons.IH [OF this] Some x show ?thesis by simp
  qed
qed

lemma count_replicate: "count_list (replicate n a) a = n"
  by (induction n) simp_all

subsection \<open>The threads stay inside their bodies and leave \<open>do_stuff\<close> alone\<close>







subsection \<open>Completions that have been signalled\<close>

lemma signal_invI:
  assumes "\<And>j. mpc s \<noteq> M_fault \<Longrightarrow> j < length (threads s) \<Longrightarrow> pc (threads s ! j) = Exited \<Longrightarrow>
      \<not> joined (mpc s) (ident (threads s ! j)) \<Longrightarrow>
      0 < comp_of (kind (threads s ! j)) s ! arg (threads s ! j)"
  shows "signal_inv s"
  using assms unfolding signal_inv_def by blast

lemma signal_invD:
  assumes "signal_inv s" and "mpc s \<noteq> M_fault" and "j < length (threads s)"
    and "pc (threads s ! j) = Exited" and "\<not> joined (mpc s) (ident (threads s ! j))"
  shows "0 < comp_of (kind (threads s ! j)) s ! arg (threads s ! j)"
  using assms unfolding signal_inv_def by blast

lemma signal_inv_mono:
  assumes inv: "signal_inv s" and ts: "threads s' = threads s @ new"
    and new: "\<And>t. t \<in> set new \<Longrightarrow> pc t \<noteq> Exited"
    and nf: "mpc s' \<noteq> M_fault \<Longrightarrow> mpc s \<noteq> M_fault"
    and old: "\<And>j. j < length (threads s) \<Longrightarrow> pc (threads s ! j) = Exited \<Longrightarrow>
        \<not> joined (mpc s') (ident (threads s ! j)) \<Longrightarrow>
        \<not> joined (mpc s) (ident (threads s ! j))
        \<and> comp_of (kind (threads s ! j)) s ! arg (threads s ! j)
            \<le> comp_of (kind (threads s ! j)) s' ! arg (threads s ! j)"
  shows "signal_inv s'"
proof (rule signal_invI)
  fix j
  assume a: "mpc s' \<noteq> M_fault" "j < length (threads s')" "pc (threads s' ! j) = Exited"
    "\<not> joined (mpc s') (ident (threads s' ! j))"
  show "0 < comp_of (kind (threads s' ! j)) s' ! arg (threads s' ! j)"
  proof (cases "j < length (threads s)")
    case True
    then have eq: "threads s' ! j = threads s ! j" by (simp add: ts nth_append)
    from a(3,4) have ex: "pc (threads s ! j) = Exited"
      and nj': "\<not> joined (mpc s') (ident (threads s ! j))"
      by (simp_all add: eq)
    from old [OF True ex nj'] have nj: "\<not> joined (mpc s) (ident (threads s ! j))"
      and le: "comp_of (kind (threads s ! j)) s ! arg (threads s ! j)
            \<le> comp_of (kind (threads s ! j)) s' ! arg (threads s ! j)"
      by simp_all
    from signal_invD [OF inv nf [OF a(1)] True ex nj] le show ?thesis by (simp add: eq)
  next
    case False
    with a(2) have "threads s' ! j \<in> set new" by (simp add: ts nth_append)
    from new [OF this] a(3) show ?thesis by simp
  qed
qed

lemma signal_inv_same:
  assumes "signal_inv s" and "threads s' = threads s" and "\<And>k. comp_of k s' = comp_of k s"
    and "\<And>x. joined (mpc s) x \<Longrightarrow> joined (mpc s') x"
    and "mpc s' \<noteq> M_fault \<Longrightarrow> mpc s \<noteq> M_fault"
  shows "signal_inv s'"
  using assms(1)
proof (rule signal_inv_mono [where new = "[]"])
  show "threads s' = threads s @ []" by (simp add: assms(2))
  show "mpc s' \<noteq> M_fault \<Longrightarrow> mpc s \<noteq> M_fault" by (rule assms(5))
  fix j
  assume "\<not> joined (mpc s') (ident (threads s ! j))"
  with assms(4) [of "ident (threads s ! j)"]
  show "\<not> joined (mpc s) (ident (threads s ! j))
        \<and> comp_of (kind (threads s ! j)) s ! arg (threads s ! j)
            \<le> comp_of (kind (threads s ! j)) s' ! arg (threads s ! j)"
    by (auto simp: assms(3))
qed simp

lemma signal_inv_thread:
  assumes inv: "signal_inv s" and sp: "spawn_inv c s" and st: "thread_step c i s = Some (e, s')"
  shows "signal_inv s'"
  using st
proof (cases rule: thread_step_effect)
  case (1 p)
  note i = 1(1) and ne = 1(2) and ts = 1(3) and m = 1(4) and pe = 1(5) and cm = 1(6)
  show ?thesis
  proof (rule signal_invI)
    fix j
    assume a: "mpc s' \<noteq> M_fault" "j < length (threads s')" "pc (threads s' ! j) = Exited"
      "\<not> joined (mpc s') (ident (threads s' ! j))"
    from a(2) have j: "j < length (threads s)" by (simp add: ts)
    show "0 < comp_of (kind (threads s' ! j)) s' ! arg (threads s' ! j)"
    proof (cases "j = i")
      case True
      with a(3) i have "p = Exited" by (simp add: ts)
      with pe have e: "e = Completed" by simp
      have "arg (threads s ! i) < length (comp_of (kind (threads s ! i)) s)"
        using spawned_ident(2) [OF sp i] progress_le_20 [OF sp] comp_length_20 [OF sp] by simp
      with cm [of "kind (threads s ! i)" "arg (threads s ! i)"] e True i show ?thesis
        by (simp add: ts ident_def)
    next
      case False
      then have eq: "threads s' ! j = threads s ! j" by (simp add: ts)
      with a m have "mpc s \<noteq> M_fault" "pc (threads s ! j) = Exited"
        "\<not> joined (mpc s) (ident (threads s ! j))"
        by simp_all
      from signal_invD [OF inv this(1) j this(2,3)]
      have "0 < comp_of (kind (threads s ! j)) s ! arg (threads s ! j)" .
      moreover have "comp_of k s ! n \<le> comp_of k s' ! n" for k n using cm [of k n] by simp
      ultimately show ?thesis unfolding eq by (meson less_le_trans)
    qed
  qed
qed

lemma spawn_iter_comp_other: "n \<noteq> l \<Longrightarrow> comp_of k (spawn_iter c l s) ! n = comp_of k s ! n"
  by (cases k) (simp_all add: spawn_iter_def spawn_if_def kernel_thread_def init_completion_def)

lemma signal_inv_join:
  assumes inv: "signal_inv s" and sp: "spawn_inv c s"
    and st: "join_step c k l again after s = Some s'"
    and now: "join_index (mpc s) = Some (k, l)"
    and again: "\<And>x. joined (again (Suc l)) x \<longleftrightarrow> joined (mpc s) x \<or> (fst x = k \<and> snd x < Suc l)"
    and after: "\<And>x. joined after x \<longleftrightarrow> joined (mpc s) x \<or> fst x = k"
  shows "signal_inv s'"
  using st
proof (cases rule: join_stepE)
  case waited
  from now have nf: "mpc s \<noteq> M_fault" by auto
  from inv show ?thesis
  proof (rule signal_inv_mono [where new = "[]"])
    show "threads s' = threads s @ []" by (simp add: waited(4))
    show "mpc s \<noteq> M_fault" by (rule nf)
    fix j
    assume j: "j < length (threads s)" "pc (threads s ! j) = Exited"
      "\<not> joined (mpc s') (ident (threads s ! j))"
    from j(3) have nj: "\<not> joined (mpc s) (ident (threads s ! j))"
      and ne: "\<not> (kind (threads s ! j) = k \<and> arg (threads s ! j) < Suc l)"
      by (simp_all add: waited(4) again ident_def)
    from ne have "kind (threads s ! j) \<noteq> k \<or> arg (threads s ! j) \<noteq> l" by auto
    then have "comp_of (kind (threads s ! j)) s' ! arg (threads s ! j)
        = comp_of (kind (threads s ! j)) s ! arg (threads s ! j)"
      by (auto simp: waited(4) comp_of_set)
    with nj show "\<not> joined (mpc s) (ident (threads s ! j))
        \<and> comp_of (kind (threads s ! j)) s ! arg (threads s ! j)
            \<le> comp_of (kind (threads s ! j)) s' ! arg (threads s ! j)"
      by simp
  qed simp
next
  case fault
  then show ?thesis by (simp add: signal_inv_def)
next
  case left
  from now have nf: "mpc s \<noteq> M_fault" by auto
  from inv show ?thesis
    by (rule signal_inv_same) (simp_all add: left after nf)
qed

lemma signal_inv_main:
  assumes inv: "signal_inv s" and sp: "spawn_inv c s" and st: "rwsem_init_module c s = Some s'"
  shows "signal_inv s'"
proof (cases "mpc s")
  case (M_spawn l)
  show ?thesis
  proof (cases "l < 20")
    case True
    with M_spawn st have s': "s' = (spawn_iter c l s)\<lparr>mpc := M_spawn (Suc l)\<rparr>"
      by (simp add: rwsem_init_module_def)
    from spawn_iter_new_threads obtain new
      where new: "threads (spawn_iter c l s) = threads s @ new" "\<forall>t \<in> set new. pc t = Head"
      by blast
    from inv show ?thesis
    proof (rule signal_inv_mono)
      show "threads s' = threads s @ new" by (simp add: s' new(1))
      show "pc t \<noteq> Exited" if "t \<in> set new" for t using new(2) that by auto
      show "mpc s \<noteq> M_fault" by (simp add: M_spawn)
      fix j
      assume j: "j < length (threads s)"
      from spawned_ident(2) [OF sp j] M_spawn have "arg (threads s ! j) \<noteq> l" by simp
      then show "\<not> joined (mpc s) (ident (threads s ! j))
        \<and> comp_of (kind (threads s ! j)) s ! arg (threads s ! j)
            \<le> comp_of (kind (threads s ! j)) s' ! arg (threads s ! j)"
        by (simp add: s' M_spawn spawn_iter_comp_other)
    qed
  next
    case False
    with M_spawn st have s': "s' = s\<lparr>mpc := M_add_timer\<rparr>"
      by (simp add: rwsem_init_module_def)
    from inv show ?thesis by (rule signal_inv_same) (simp_all add: s' M_spawn)
  qed
next
  case (M_wait_rd l)
  with st have "join_step c Reader l M_wait_rd (M_wait_wr 0) s = Some s'"
    by (simp add: rwsem_init_module_def)
  with inv sp show ?thesis
    by (rule signal_inv_join) (auto simp: M_wait_rd joined_def)
next
  case (M_wait_wr l)
  with st have "join_step c Writer l M_wait_wr (M_wait_dg 0) s = Some s'"
    by (simp add: rwsem_init_module_def)
  with inv sp show ?thesis
    by (rule signal_inv_join) (auto simp: M_wait_wr joined_def dest: kind_neq)
next
  case (M_wait_dg l)
  with st have "join_step c Downgrader l M_wait_dg M_clear_do_stuff s = Some s'"
    by (simp add: rwsem_init_module_def)
  with inv sp show ?thesis
    by (rule signal_inv_join) (auto simp: M_wait_dg joined_def dest: kind_neq)
next
  case M_start
  with st have s': "s' = (printk Starting_tests s)\<lparr>mpc := M_init_rwsem\<rparr>"
    by (simp add: rwsem_init_module_def)
  have cm: "comp_of k (printk m s) = comp_of k s" for k m by (cases k) (simp_all add: printk_def)
  from inv show ?thesis by (rule signal_inv_same) (use cm M_start in \<open>simp_all add: s' printk_def\<close>)
next
  case M_init_rwsem
  with st have s': "s' = (init_rwsem s)\<lparr>mpc := M_set_do_stuff\<rparr>"
    by (simp add: rwsem_init_module_def)
  have cm: "comp_of k (init_rwsem s) = comp_of k s" for k by (cases k) (simp_all add: init_rwsem_def)
  from inv show ?thesis by (rule signal_inv_same) (use cm M_init_rwsem in \<open>simp_all add: s' init_rwsem_def\<close>)
next
  case M_set_do_stuff
  with st have s': "s' = (atomic_set Do_stuff 1 s)\<lparr>mpc := M_spawn 0\<rparr>"
    by (simp add: rwsem_init_module_def)
  have cm: "comp_of k (s\<lparr>do_stuff := w\<rparr>) = comp_of k s" for k w by (cases k) simp_all
  from inv show ?thesis by (rule signal_inv_same) (use cm M_set_do_stuff in \<open>simp_all add: s'\<close>)
next
  case M_add_timer
  with st have s': "s' = s\<lparr>timer_pending := True, mpc := M_wait_rd 0\<rparr>"
    by (simp add: rwsem_init_module_def)
  have cm: "comp_of k (s\<lparr>timer_pending := b\<rparr>) = comp_of k s" for k b by (cases k) simp_all
  from inv show ?thesis by (rule signal_inv_same) (use cm M_add_timer in \<open>simp_all add: s'\<close>)
next
  case M_clear_do_stuff
  with st have s': "s' = (atomic_set Do_stuff 0 s)\<lparr>mpc := M_del_timer\<rparr>"
    by (simp add: rwsem_init_module_def)
  have cm: "comp_of k (s\<lparr>do_stuff := w\<rparr>) = comp_of k s" for k w by (cases k) simp_all
  from inv show ?thesis by (rule signal_inv_same) (use cm M_clear_do_stuff in \<open>simp_all add: s'\<close>)
next
  case M_del_timer
  with st have s': "s' = s\<lparr>timer_pending := False, mpc := M_print_counter\<rparr>"
    by (simp add: rwsem_init_module_def)
  have cm: "comp_of k (s\<lparr>timer_pending := b\<rparr>) = comp_of k s" for k b by (cases k) simp_all
  from inv show ?thesis by (rule signal_inv_same) (use cm M_del_timer in \<open>simp_all add: s'\<close>)
next
  case M_print_counter
  with st have s': "s' = (printk (Rwsem_counter (activity s)) s)\<lparr>mpc := M_print_reads\<rparr>"
    by (simp add: rwsem_init_module_def)
  have cm: "comp_of k (printk m s) = comp_of k s" for k m by (cases k) (simp_all add: printk_def)
  from inv show ?thesis by (rule signal_inv_same) (use cm M_print_counter in \<open>simp_all add: s' printk_def\<close>)
next
  case M_print_reads
  with st have s': "s' = (printk (Reads_taken_msg (reads_taken s)) s)\<lparr>mpc := M_print_writes\<rparr>"
    by (simp add: rwsem_init_module_def)
  have cm: "comp_of k (printk m s) = comp_of k s" for k m by (cases k) (simp_all add: printk_def)
  from inv show ?thesis by (rule signal_inv_same) (use cm M_print_reads in \<open>simp_all add: s' printk_def\<close>)
next
  case M_print_writes
  with st have s': "s' = (printk (Writes_taken_msg (writes_taken s)) s)\<lparr>mpc := M_print_downgrades\<rparr>"
    by (simp add: rwsem_init_module_def)
  have cm: "comp_of k (printk m s) = comp_of k s" for k m by (cases k) (simp_all add: printk_def)
  from inv show ?thesis by (rule signal_inv_same) (use cm M_print_writes in \<open>simp_all add: s' printk_def\<close>)
next
  case M_print_downgrades
  with st have s': "s' = (printk (Downgrades_taken_msg (downgrades_taken s)) s)\<lparr>mpc := M_return\<rparr>"
    by (simp add: rwsem_init_module_def)
  have cm: "comp_of k (printk m s) = comp_of k s" for k m by (cases k) (simp_all add: printk_def)
  from inv show ?thesis by (rule signal_inv_same) (use cm M_print_downgrades in \<open>simp_all add: s' printk_def\<close>)
next
  case M_return
  with st have s': "s' = s\<lparr>mpc := M_returned (- ENOANO)\<rparr>"
    by (simp add: rwsem_init_module_def)
  from inv show ?thesis by (rule signal_inv_same) (use M_return in \<open>simp_all add: s'\<close>)
next
  case (M_returned r)
  with st show ?thesis by (simp add: rwsem_init_module_def)
next
  case M_fault
  with st show ?thesis by (simp add: rwsem_init_module_def)
qed

lemma signal_inv_reachable: "reachable c s \<Longrightarrow> signal_inv s"
proof (induction rule: reachable.induct)
  case reachable_init
  show ?case by (intro signal_invI) (simp add: init_state_def)
next
  case (reachable_step s a e s')
  note sp = spawn_inv_reachable [OF reachable_step.hyps(1)]
  from reachable_step.hyps(2) show ?case
  proof (cases rule: stepE)
    case main
    with reachable_step.IH sp show ?thesis by (blast intro: signal_inv_main)
  next
    case timer
    then have s': "s' = (stop_test 0 s)\<lparr>timer_pending := False\<rparr>"
      by (auto simp: timer_step_def split: if_splits)
    have cm: "comp_of k s' = comp_of k s" for k
      by (cases k) (simp_all add: s' stop_test_def)
    from reachable_step.IH show ?thesis
      by (rule signal_inv_same) (simp_all add: cm, simp_all add: s' stop_test_def)
  next
    case (thread i)
    with reachable_step.IH sp show ?thesis by (blast intro: signal_inv_thread)
  qed
qed


subsection \<open>The init function once the threads have exited\<close>

lemma all_goneD: "all_gone s \<Longrightarrow> j < length (threads s) \<Longrightarrow> pc (threads s ! j) = Exited"
  by (simp add: all_gone_def list_all_length)

lemma idle_when_outside:
  assumes "reachable c s" and "\<And>t. t \<in> set (threads s) \<Longrightarrow> pc t = Exited \<or> pc t = Body 0"
  shows "activity s = 0" "readers s = 0" "writers s = 0"
proof -
  have z: "tally holdsR s = 0" "tally holdsW s = 0" "tally shareR s = 0" "tally shareW s = 0"
    by (rule tally_zero, rule flags_start, use assms(2) in blast)+
  with lock_inv_reachable [OF assms(1)] show "activity s = 0" "readers s = 0" "writers s = 0"
    by (simp_all add: lock_inv_def)
qed

lemma idle_when_gone:
  assumes "reachable c s" and "all_gone s"
  shows "activity s = 0" "readers s = 0" "writers s = 0"
  by (rule idle_when_outside [OF assms(1)], use assms(2) in \<open>simp add: all_gone_def list_all_iff\<close>)+

lemma join_step_gone:
  assumes r: "reachable c s" and g: "all_gone s" and cap: "as_ulong (num_of c k) \<le> 20"
    and now: "join_index (mpc s) = Some (k, l)"
  shows "\<exists>s'. join_step c k l again after s = Some s' \<and> threads s' = threads s
     \<and> klog s' = klog s \<and> final_report s' = final_report s
     \<and> mpc s' = (if l < as_ulong (num_of c k) then again (Suc l) else after)"
proof (cases "l < as_ulong (num_of c k)")
  case True
  note sp = spawn_inv_reachable [OF r]
  from now have pr: "progress (mpc s) = 20" and nf: "mpc s \<noteq> M_fault"
    by (cases "mpc s"; simp)+
  from True cap pr have "(k, l) \<in> set (spawned c (progress (mpc s)))" by (simp add: spawned_member)
  with sp have "(k, l) \<in> set (map ident (threads s))" by (simp add: spawn_inv_def)
  then obtain j where j: "j < length (threads s)" "ident (threads s ! j) = (k, l)"
    by (auto simp: in_set_conv_nth)
  from now have nj: "\<not> joined (mpc s) (ident (threads s ! j))"
    unfolding j(2) by (cases "mpc s") (auto simp: joined_def)
  from signal_invD [OF signal_inv_reachable [OF r] nf j(1) all_goneD [OF g j(1)] nj] j(2)
  have "0 < comp_of k s ! l" by (simp add: ident_def)
  with True comp_length_20 [OF sp, of k] cap show ?thesis
    by (simp add: join_step_def wait_for_completion_def final_report_def)
next
  case False
  then show ?thesis by (simp add: join_step_def final_report_def)
qed

lemma main_step_gone:
  assumes r: "reachable c s" and g: "all_gone s" and cap: "within_cap c"
  shows "(0 < togo c (mpc s) \<longrightarrow> rwsem_init_module c s \<noteq> None)
     \<and> (\<forall>s'. rwsem_init_module c s = Some s' \<longrightarrow>
          all_gone s' \<and> togo c (mpc s') < togo c (mpc s)
          \<and> klog s' @ drop (report_stage (mpc s')) (final_report s')
              = klog s @ drop (report_stage (mpc s)) (final_report s))"
proof -
  from g have st: "started (mpc s)" and ex: "list_all (\<lambda>t. pc t = Exited) (threads s)"
    by (simp_all add: all_gone_def)
  have caps: "as_ulong (num_of c k) \<le> 20" for k
    using cap by (cases k) (simp_all add: within_cap_def num_of_def)
  note idle = idle_when_gone(1) [OF r g]
  show ?thesis
  proof (cases "mpc s")
    case (M_wait_rd l)
    from join_step_gone [OF r g caps, of Reader l M_wait_rd "M_wait_wr 0"] M_wait_rd
    obtain s1 where "join_step c Reader l M_wait_rd (M_wait_wr 0) s = Some s1"
      "threads s1 = threads s" "klog s1 = klog s" "final_report s1 = final_report s"
      "mpc s1 = (if l < as_ulong (num_of c Reader) then M_wait_rd (Suc l) else M_wait_wr 0)"
      by auto
    with M_wait_rd ex show ?thesis
      by (auto simp: rwsem_init_module_def all_gone_def num_of_def)
  next
    case (M_wait_wr l)
    from join_step_gone [OF r g caps, of Writer l M_wait_wr "M_wait_dg 0"] M_wait_wr
    obtain s1 where "join_step c Writer l M_wait_wr (M_wait_dg 0) s = Some s1"
      "threads s1 = threads s" "klog s1 = klog s" "final_report s1 = final_report s"
      "mpc s1 = (if l < as_ulong (num_of c Writer) then M_wait_wr (Suc l) else M_wait_dg 0)"
      by auto
    with M_wait_wr ex show ?thesis
      by (auto simp: rwsem_init_module_def all_gone_def num_of_def)
  next
    case (M_wait_dg l)
    from join_step_gone [OF r g caps, of Downgrader l M_wait_dg M_clear_do_stuff] M_wait_dg
    obtain s1 where "join_step c Downgrader l M_wait_dg M_clear_do_stuff s = Some s1"
      "threads s1 = threads s" "klog s1 = klog s" "final_report s1 = final_report s"
      "mpc s1 = (if l < as_ulong (num_of c Downgrader) then M_wait_dg (Suc l) else M_clear_do_stuff)"
      by auto
    with M_wait_dg ex show ?thesis
      by (auto simp: rwsem_init_module_def all_gone_def num_of_def)
  next
    case M_print_counter
    with ex idle show ?thesis
      by (auto simp: rwsem_init_module_def all_gone_def printk_def final_report_def)
  qed (use st ex in \<open>auto simp: rwsem_init_module_def all_gone_def printk_def final_report_def\<close>)
qed

lemma togo_le:
  assumes "within_cap c"
  shows "togo c p \<le> 71"
  using assms by (cases p) (auto simp: within_cap_def)

text \<open>Once the threads have exited, any schedule that gives the init function 71 turns
  takes it to its return.\<close>

lemma main_finishes:
  assumes r: "reachable c s" and g: "all_gone s" and cap: "within_cap c"
    and turns: "71 \<le> count_list bs Main"
  shows "mpc (run c bs s) = M_returned (- ENOANO)"
    and "klog (run c bs s) = klog s @ drop (report_stage (mpc s)) (final_report s)"
proof -
  let ?K = "klog s @ drop (report_stage (mpc s)) (final_report s)"
  let ?P = "\<lambda>x. reachable c x \<and> all_gone x
     \<and> klog x @ drop (report_stage (mpc x)) (final_report x) = ?K"
  let ?s' = "run c bs s"
  have "?P ?s' \<and> togo c (mpc ?s') = 0"
  proof (rule run_measure_any [where P = ?P and f = "\<lambda>x. togo c (mpc x)" and a = Main])
    show "?P s" using r g by simp
    show "togo c (mpc s) \<le> count_list bs Main" using togo_le [OF cap, of "mpc s"] turns by simp
  next
    fix x
    assume x: "?P x"
    then have rx: "reachable c x" and gx: "all_gone x" by simp_all
    from main_step_gone [OF rx gx cap] x
    show "(0 < togo c (mpc x) \<longrightarrow> step c Main x \<noteq> None)
       \<and> (\<forall>e s'. step c Main x = Some (e, s') \<longrightarrow>
            ?P s' \<and> (togo c (mpc s') < togo c (mpc x) \<or> togo c (mpc s') = 0))"
      by (auto simp: step_def intro: reachable_step [OF rx, of Main])
  next
    fix x b e s'
    assume x: "?P x" and b: "b \<noteq> Main" and st: "step c b x = Some (e, s')"
    from x have rx: "reachable c x" and gx: "all_gone x" by simp_all
    from st show "?P s' \<and> togo c (mpc s') \<le> togo c (mpc x)"
    proof (cases rule: stepE)
      case main
      with b show ?thesis by simp
    next
      case timer
      then have s': "s' = (stop_test 0 x)\<lparr>timer_pending := False\<rparr>"
        by (auto simp: timer_step_def split: if_splits)
      with x reachable_step [OF rx st] show ?thesis
        by (simp add: stop_test_def all_gone_def final_report_def)
    next
      case (thread i)
      from thread(2) all_goneD [OF gx, of i] show ?thesis
        by (cases rule: thread_step_effect) simp
    qed
  qed
  then have r': "reachable c ?s'" and g': "all_gone ?s'"
    and k: "klog ?s' @ drop (report_stage (mpc ?s')) (final_report ?s') = ?K"
    and z: "togo c (mpc ?s') = 0"
    by simp_all
  from g' have "started (mpc ?s')" by (simp add: all_gone_def)
  with z obtain r0 where m: "mpc ?s' = M_returned r0" by (cases "mpc ?s'") simp_all
  with report_inv_reachable [OF r'] show "mpc ?s' = M_returned (- ENOANO)"
    by (simp add: report_inv_def)
  from k m show "klog ?s' = ?K" by (simp add: final_report_def)
qed

subsection \<open>A thread once the test has been stopped\<close>













subsection \<open>Every run can be completed\<close>






section \<open>After the join\<close>

lemma joined_gone:
  assumes "reachable c s" and "all_joined s"
  shows "all_gone s"
  using assms(2) exit_inv_joined [OF exit_inv_reachable [OF assms(1)]]
  unfolding all_gone_def all_joined_def list_all_length by blast

lemma taken_when_gone:
  assumes "taken v" and "list_all (\<lambda>t. pc t = Exited) (threads (run c as init_state))"
  shows "atomic_read v (run c as init_state) = of_nat (occurrences (fin v) (trace c as init_state))"
proof -
  have "tally (pending v) init_state = 0" by (simp add: tally_def init_state_def)
  moreover have "tally (pending v) (run c as init_state) = 0"
    by (rule tally_zero) (use assms(2) in \<open>simp add: list_all_iff\<close>)
  ultimately have "occurrences (Atomic_inc v) (trace c as init_state)
      = occurrences (fin v) (trace c as init_state)"
    using run_pending [OF assms(1), of c as init_state] by simp
  moreover have "atomic_read v init_state = 0" by (cases v) (simp_all add: init_state_def)
  ultimately show ?thesis using run_taken [OF assms(1), of c as init_state] by simp
qed

lemma report_when_gone:
  assumes "all_gone (run c as init_state)"
  shows "final_report (run c as init_state) = report_of (trace c as init_state)"
  using taken_when_gone [of Reads_taken c as] taken_when_gone [of Writes_taken c as]
    taken_when_gone [of Downgrades_taken c as] assms
  by (simp add: final_report_def report_of_def taken_def fin_def all_gone_def)

lemma results_exact:
  assumes "reachable c s" and "mpc s = M_returned r"
  shows "filter is_result (klog s) = final_report s"
proof -
  from final_inv_reachable [OF assms(1)] assms(2)
  obtain pre where pre: "klog s = pre @ final_report s"
    by (auto simp: final_inv_def joined_all_def final_report_def)
  from report_inv_reachable [OF assms(1)] assms(2) have "length (filter is_result (klog s)) = 4"
    by (auto simp: report_inv_def)
  with pre have "filter is_result pre = []" by (simp add: final_report_def)
  with pre show ?thesis by (simp add: final_report_def)
qed

lemma beyond_cap:
  assumes "reachable c s" and "\<not> within_cap c"
  shows "\<not> joined_all (mpc s)" and "filter is_result (klog s) = []" and "mpc s \<noteq> M_returned r"
proof -
  from join_inv_reachable [OF assms(1)] assms(2) show nj: "\<not> joined_all (mpc s)"
    by (cases "mpc s") (auto simp: join_inv_def joined_all_def within_cap_def num_of_def)
  then have "report_stage (mpc s) = 0" by (cases "mpc s") (simp_all add: joined_all_def)
  with report_inv_reachable [OF assms(1)] show "filter is_result (klog s) = []"
    by (auto simp: report_inv_def)
  from nj show "mpc s \<noteq> M_returned r" by (auto simp: joined_all_def)
qed

lemma demo_join_run: "run default_config demo_join init_state = demo_joined"
  by (simp add: demo_join_def demo_joined_def default_config_def init_state_def
        model_defs replicate_numeral)


lemma demo_join_report:
  "report_of (trace default_config demo_join init_state)
     = [Rwsem_counter 0, Reads_taken_msg 2, Writes_taken_msg 2, Downgrades_taken_msg 1]"
  by (simp add: report_of_def demo_join_def default_config_def init_state_def
        model_defs replicate_numeral)

lemma as_ulong_le_20: "as_ulong w \<le> 20 \<longleftrightarrow> 0 \<le> sint w \<and> sint w \<le> 20"
  using as_ulong_gt_20 [of w] by auto

text \<open>Read as the C \<^verbatim>\<open>int\<close>s they are, the counts are from 0 to 20.\<close>

lemma within_cap_sint:
  "within_cap c \<longleftrightarrow>
     0 \<le> sint (numrd c) \<and> sint (numrd c) \<le> 20 \<and> 0 \<le> sint (numwr c) \<and> sint (numwr c) \<le> 20
     \<and> 0 \<le> sint (numdg c) \<and> sint (numdg c) \<le> 20"
  by (auto simp: within_cap_def as_ulong_le_20)

lemma demo_report:
  "report_of (trace default_config demo_schedule init_state)
     = [Rwsem_counter 0, Reads_taken_msg 2, Writes_taken_msg 2, Downgrades_taken_msg 1]"
  by (simp add: report_of_def demo_trace_counts)

lemma default_within_cap: "within_cap default_config"
  by (simp add: within_cap_def default_config_def as_ulong_def)

lemma config21_beyond_cap: "\<not> within_cap config21" "\<not> within_cap config_neg"
  by (simp_all add: within_cap_def config21_def config_neg_def not_le as_ulong_gt_20)

text \<open>
  Claim C4, with the report for counts of threads within 0 to 20. Take any run, and
  suppose that every thread the start loop created has been waited for by the init
  function. Then every thread has exited, the threads are those of the start loop, the
  semaphore is free (\<open>activity = 0\<close>) and \<open>readers\<close> and \<open>writers\<close> are 0; the counters
  \<open>reads_taken\<close>, \<open>writes_taken\<close> and \<open>downgrades_taken\<close> hold the numbers of completed
  calls of \<^verbatim>\<open>dr\<close>, \<^verbatim>\<open>dw\<close> and \<^verbatim>\<open>dgw\<close> of the run, as 32-bit values. If the three counts
  are within 0 to 20 (\<open>within_cap\<close>), the init function does produce its report: however
  the run goes on, once the function has had 71 more turns (none of its steps blocks, and
  fewer are needed) it has returned \<open>-ENOANO\<close>, and what it has added to the log is the
  rest of the report (the whole report when it starts from a join loop): the semaphore's
  counter 0 and these three numbers. When the function has returned, these four lines
  are the result lines of the log.
\<close>

theorem final_state_idle_and_reported:
  assumes "all_joined (run c as init_state)"
  shows "list_all (\<lambda>t. pc t = Exited) (threads (run c as init_state))
    \<and> map ident (threads (run c as init_state)) = spawned c 20
    \<and> activity (run c as init_state) = 0 \<and> readers (run c as init_state) = 0
    \<and> writers (run c as init_state) = 0
    \<and> reads_taken (run c as init_state) = of_nat (occurrences (last dr) (trace c as init_state))
    \<and> writes_taken (run c as init_state) = of_nat (occurrences (last dw) (trace c as init_state))
    \<and> downgrades_taken (run c as init_state)
          = of_nat (occurrences (last dgw) (trace c as init_state))
    \<and> (within_cap c \<and> 71 \<le> count_list bs Main \<longrightarrow>
         mpc (run c bs (run c as init_state)) = M_returned (- ENOANO)
         \<and> klog (run c bs (run c as init_state))
             = klog (run c as init_state)
               @ drop (report_stage (mpc (run c as init_state))) (report_of (trace c as init_state)))
    \<and> (\<forall>r. mpc (run c as init_state) = M_returned r \<longrightarrow>
         filter is_result (klog (run c as init_state)) = report_of (trace c as init_state))"
proof -
  let ?s = "run c as init_state"
  have r: "reachable c ?s" by (rule reachable_run [OF reachable_init])
  note g = joined_gone [OF r assms]
  from g have ex: "list_all (\<lambda>t. pc t = Exited) (threads ?s)" and st: "started (mpc ?s)"
    by (simp_all add: all_gone_def)
  from st have "progress (mpc ?s) = 20" by (cases "mpc ?s") simp_all
  with spawn_inv_reachable [OF r] have sp: "map ident (threads ?s) = spawned c 20"
    by (simp add: spawn_inv_def)
  note rep = report_when_gone [OF g]
  then have tot: "reads_taken ?s = of_nat (occurrences (last dr) (trace c as init_state))"
    "writes_taken ?s = of_nat (occurrences (last dw) (trace c as init_state))"
    "downgrades_taken ?s = of_nat (occurrences (last dgw) (trace c as init_state))"
    by (simp_all add: final_report_def report_of_def)
  have fin: "mpc (run c bs ?s) = M_returned (- ENOANO)
         \<and> klog (run c bs ?s)
             = klog ?s @ drop (report_stage (mpc ?s)) (report_of (trace c as init_state))"
    if "within_cap c" "71 \<le> count_list bs Main"
    using main_finishes [OF r g that] by (simp add: rep)
  have res: "filter is_result (klog ?s) = report_of (trace c as init_state)"
    if "mpc ?s = M_returned r0" for r0
    using results_exact [OF r that] by (simp add: rep)
  from ex sp idle_when_gone [OF r g] tot fin res show ?thesis by blast
qed

text \<open>The run with the default parameters, taken to the end of the last join loop: the
  three threads have exited, and the steps of the init function that follow print the
  report and return, also when the timer's turn comes in between.\<close>

theorem final_state_idle_and_reported_witness:
  "all_joined (run default_config demo_join init_state) \<and> within_cap default_config
   \<and> 71 \<le> count_list (Timer # replicate 71 Main) Main
   \<and> mpc (run default_config demo_join init_state) = M_wait_dg 1
   \<and> activity (run default_config demo_join init_state) = 0
   \<and> mpc (run default_config (Timer # replicate 71 Main) (run default_config demo_join init_state))
       = M_returned (- 55)
   \<and> klog (run default_config (Timer # replicate 71 Main) (run default_config demo_join init_state))
       = [Starting_tests, Thread_done Writer 0, Thread_done Downgrader 0, Thread_done Reader 0,
          Rwsem_counter 0, Reads_taken_msg 2, Writes_taken_msg 2, Downgrades_taken_msg 1]
   \<and> all_joined (run default_config demo_schedule init_state)
   \<and> mpc (run default_config demo_schedule init_state) = M_returned (- 55)
   \<and> filter is_result (klog (run default_config demo_schedule init_state))
       = [Rwsem_counter 0, Reads_taken_msg 2, Writes_taken_msg 2, Downgrades_taken_msg 1]"
  using final_state_idle_and_reported [of default_config demo_join "Timer # replicate 71 Main"]
    final_state_idle_and_reported [of default_config demo_schedule "[]"]
    default_within_cap
  by (simp add: demo_join_run demo_join_report demo_joined_def all_joined_def joined_def
        ident_def ENOANO_def count_replicate demo_run demo_final_def demo_report)

text \<open>With 21 readers configured, the 20 readers that were started have all exited and
  been waited for in \<open>state21\<close>, and the semaphore is free, yet the init function goes on
  to the wait at index 20 and no run ever prints a result line. And with one reader that
  completes \<open>2 ^ 31\<close> calls of \<^verbatim>\<open>dr\<close>, the total that is reported is \<open>-2147483648\<close>.\<close>

theorem final_state_idle_and_reported_counterexample:
  "run config21 schedule21 init_state = state21 \<and> all_joined state21
   \<and> map pc (threads state21) = replicate 20 Exited \<and> activity state21 = 0
   \<and> run config21 (replicate 71 Main) state21 = state21\<lparr>mpc := M_fault\<rparr>
   \<and> (\<forall>as. filter is_result (klog (run config21 as init_state)) = [])
   \<and> mpc (run config_r long_schedule init_state) = M_returned (- ENOANO)
   \<and> occurrences (last dr) (trace config_r long_schedule init_state) = 2147483648
   \<and> filter is_result (klog (run config_r long_schedule init_state))
       = [Rwsem_counter 0, Reads_taken_msg 2147483648, Writes_taken_msg 0, Downgrades_taken_msg 0]
   \<and> sint (2147483648 :: 32 word) = - 2147483648"
proof -
  have a: "all_joined state21 \<and> map pc (threads state21) = replicate 20 Exited \<and> activity state21 = 0"
    by (simp add: all_joined_def state21_def readers21_def upt_20 joined_def ident_def
          replicate_numeral)
  have b: "run config21 (replicate 71 Main) state21 = state21\<lparr>mpc := M_fault\<rparr>"
    by (simp add: state21_def config21_def readers21_def replicate_numeral step_def
          rwsem_init_module_def join_step_def num_of_def as_ulong_def)
  have c: "filter is_result (klog (run config21 as init_state)) = []" for as
    by (rule beyond_cap(2) [OF reachable_run [OF reachable_init] config21_beyond_cap(1)])
  from long_run have d: "mpc (run config_r long_schedule init_state) = M_returned (- ENOANO)"
    "occurrences (last dr) (trace config_r long_schedule init_state) = 2147483648"
    "filter is_result (klog (run config_r long_schedule init_state))
       = [Rwsem_counter 0, Reads_taken_msg 2147483648, Writes_taken_msg 0, Downgrades_taken_msg 0]"
    by (simp_all add: wrapped_final_def ENOANO_def fin_def)
  have e: "sint (2147483648 :: 32 word) = - 2147483648" by simp
  from run21 a b c d e show ?thesis by blast
qed

section \<open>The return of the init function\<close>




end
